theory Spec2Isabelle
  imports Main "HOL-Library.Char_ord" "HOL-Library.List_Lexorder"
    "HOL-Library.Product_Lexorder" "HOL-Library.Sublist"
begin

section \<open>Bookmark records\<close>

text \<open>
  The \<^verbatim>\<open>Bookmark\<close> struct of \<^verbatim>\<open>simple-bm.go\<close>. Go strings are byte strings and
  are modelled as \<^typ>\<open>string\<close>; the \<^verbatim>\<open>int64\<close> time stamps are only copied and
  compared, never computed with, and are modelled as \<^typ>\<open>int\<close>.
\<close>

record Bookmark =
  URL :: string
  Title :: string
  Description :: string
  Tags :: "string list"
  CreatedAt :: int
  UpdatedAt :: int
  ID :: string
  Status :: string

section \<open>Deduplication\<close>

text \<open>
  \<^verbatim>\<open>removeDuplicates\<close>: one pass over the slice with the map \<^verbatim>\<open>seen\<close> (a Go
  \<^verbatim>\<open>map[string]bool\<close>, where an absent key reads as \<^verbatim>\<open>false\<close>) and the slice
  \<^verbatim>\<open>unique\<close> that is appended to.
\<close>

fun removeDuplicates_loop ::
  "(string \<Rightarrow> bool) \<Rightarrow> Bookmark list \<Rightarrow> Bookmark list \<Rightarrow> Bookmark list" where
  "removeDuplicates_loop seen unique [] = unique"
| "removeDuplicates_loop seen unique (bm # rest) =
     (if \<not> seen (URL bm)
      then removeDuplicates_loop (seen(URL bm := True)) (unique @ [bm]) rest
      else removeDuplicates_loop seen unique rest)"

definition removeDuplicates :: "Bookmark list \<Rightarrow> Bookmark list" where
  "removeDuplicates bookmarks = removeDuplicates_loop (\<lambda>_. False) [] bookmarks"

text \<open>
  \<^verbatim>\<open>findDuplicates\<close> counts the occurrences of every URL and reports those seen more
  than once. Go iterates over the count map in an unspecified order; the model lists
  the reports in the order of first occurrence, and only the set of reports is meant.
  The field \<^verbatim>\<open>URL\<close> of \<^verbatim>\<open>DuplicateInfo\<close> is \<open>DupURL\<close> here, since the fields of all
  records share one name space.
\<close>

record DuplicateInfo =
  DupURL :: string
  Count :: int

fun urlCount_loop :: "(string \<Rightarrow> int) \<Rightarrow> Bookmark list \<Rightarrow> (string \<Rightarrow> int)" where
  "urlCount_loop urlCount [] = urlCount"
| "urlCount_loop urlCount (bm # rest) =
     urlCount_loop (urlCount(URL bm := urlCount (URL bm) + 1)) rest"

definition findDuplicates :: "Bookmark list \<Rightarrow> DuplicateInfo list" where
  "findDuplicates bookmarks =
     (let urlCount = urlCount_loop (\<lambda>_. 0) bookmarks
      in map (\<lambda>url. \<lparr>DupURL = url, Count = urlCount url\<rparr>)
           (filter (\<lambda>url. urlCount url > 1) (remdups (map URL bookmarks))))"

section \<open>The key-value store\<close>

definition RedisBookmarksKey :: string where
  "RedisBookmarksKey = ''bookmarks:index''"

definition RedisURLSetKey :: string where
  "RedisURLSetKey = ''bookmarks:urls''"

definition RedisBookmarksActiveKey :: string where
  "RedisBookmarksActiveKey = ''bookmarks:active''"

definition RedisBookmarksDeadKey :: string where
  "RedisBookmarksDeadKey = ''bookmarks:dead''"

definition RedisURLSetActive :: string where
  "RedisURLSetActive = ''bookmarks:urls:active''"

definition RedisURLSetDead :: string where
  "RedisURLSetDead = ''bookmarks:urls:dead''"

text \<open>
  The error values the commands return: a failed store command, and
  \<^verbatim>\<open>cli.Exit(message, code)\<close>.
\<close>

datatype error = RedisError | Exit string int

text \<open>
  The store as the program uses it: sorted sets (a list of member and score, no member
  twice) and plain sets, both by key. The program keeps sorted sets and plain sets
  under different keys. \<open>faults\<close> is the sequence of outcomes of the commands still to
  come: \<open>True\<close> makes the next command fail without effect; once it is used up, every
  command succeeds. The score type \<open>'s\<close> stands for \<^verbatim>\<open>float64\<close>.
\<close>

record 's redis =
  zsets :: "string \<Rightarrow> (string \<times> 's) list"
  sets :: "string \<Rightarrow> string set"
  faults :: "bool list"

definition fails :: "'s redis \<Rightarrow> bool" where
  "fails st = (case faults st of [] \<Rightarrow> False | f # _ \<Rightarrow> f)"

definition advance :: "'s redis \<Rightarrow> 's redis" where
  "advance st = st\<lparr>faults := tl (faults st)\<rparr>"

definition Del :: "string \<Rightarrow> 's redis \<Rightarrow> error option \<times> 's redis" where
  "Del key st =
     (if fails st then (Some RedisError, advance st)
      else (None, advance (st\<lparr>zsets := (zsets st)(key := []),
                                 sets := (sets st)(key := {})\<rparr>)))"

text \<open>Adding a member that is already in the sorted set replaces its score.\<close>

definition zadd_rows :: "string \<Rightarrow> 's \<Rightarrow> (string \<times> 's) list \<Rightarrow> (string \<times> 's) list" where
  "zadd_rows member score rows = (member, score) # filter (\<lambda>z. fst z \<noteq> member) rows"

definition ZAdd :: "string \<Rightarrow> 's \<Rightarrow> string \<Rightarrow> 's redis \<Rightarrow> error option \<times> 's redis" where
  "ZAdd key score member st =
     (if fails st then (Some RedisError, advance st)
      else (None, advance (st\<lparr>zsets := (zsets st)
              (key := zadd_rows member score (zsets st key))\<rparr>)))"

definition SAdd :: "string \<Rightarrow> string \<Rightarrow> 's redis \<Rightarrow> error option \<times> 's redis" where
  "SAdd key member st =
     (if fails st then (Some RedisError, advance st)
      else (None, advance (st\<lparr>sets := (sets st)(key := insert member (sets st key))\<rparr>)))"

definition SRem :: "string \<Rightarrow> string \<Rightarrow> 's redis \<Rightarrow> error option \<times> 's redis" where
  "SRem key member st =
     (if fails st then (Some RedisError, advance st)
      else (None, advance (st\<lparr>sets := (sets st)(key := sets st key - {member})\<rparr>)))"

text \<open>
  \<^verbatim>\<open>ZRangeWithScores(key, 0, -1)\<close>: the whole sorted set, by ascending score and, for
  equal scores, by the bytes of the member.
\<close>

definition ZRangeWithScores ::
  "string \<Rightarrow> ('s::linorder) redis \<Rightarrow> (error + (string \<times> 's) list) \<times> 's redis" where
  "ZRangeWithScores key st =
     (if fails st then (Inl RedisError, advance st)
      else (Inr (sort_key (\<lambda>z. (snd z, fst z)) (zsets st key)), advance st))"

text \<open>
  What the program takes from the libraries: \<^verbatim>\<open>json.Marshal\<close> and
  \<^verbatim>\<open>json.Unmarshal\<close> on bookmarks (\<open>None\<close> is a parse error) and the conversion
  \<^verbatim>\<open>float64(bm.CreatedAt)\<close>.
\<close>

record 's codec =
  marshal :: "Bookmark \<Rightarrow> string"
  unmarshal :: "string \<Rightarrow> Bookmark option"
  float64 :: "int \<Rightarrow> 's"

text \<open>
  The scan loop shared by \<^verbatim>\<open>getFromZSet\<close> and \<^verbatim>\<open>getAllBookmarks\<close>: a member that
  does not parse takes the \<^verbatim>\<open>continue\<close> branch.
\<close>

fun scan_loop ::
  "'s codec \<Rightarrow> (string \<times> 's) list \<Rightarrow> Bookmark list \<Rightarrow> Bookmark list" where
  "scan_loop env [] bookmarks = bookmarks"
| "scan_loop env (z # results) bookmarks =
     (case unmarshal env (fst z) of
        None \<Rightarrow> scan_loop env results bookmarks
      | Some bm \<Rightarrow> scan_loop env results (bookmarks @ [bm]))"

definition getFromZSet ::
  "('s::linorder) codec \<Rightarrow> string \<Rightarrow> 's redis \<Rightarrow> (error + Bookmark list) \<times> 's redis" where
  "getFromZSet env zkey st =
     (case ZRangeWithScores zkey st of
        (Inl err, st') \<Rightarrow> (Inl err, st')
      | (Inr results, st') \<Rightarrow> (Inr (scan_loop env results []), st'))"

definition getAllBookmarks ::
  "('s::linorder) codec \<Rightarrow> 's redis \<Rightarrow> (error + Bookmark list) \<times> 's redis" where
  "getAllBookmarks env st =
     (case ZRangeWithScores RedisBookmarksKey st of
        (Inl err, st') \<Rightarrow> (Inl err, st')
      | (Inr results, st') \<Rightarrow> (Inr (scan_loop env results []), st'))"

section \<open>The health probe\<close>

text \<open>
  The network, as \<^verbatim>\<open>urlHealthy\<close> sees it through \<^verbatim>\<open>net/http\<close>. A call returns a
  response and an error; \<open>Failed\<close> is a non-nil error (transport failure, timeout of
  the client), \<open>NoResponse\<close> is a nil response with a nil error, \<open>Response status\<close> is
  a response with that status code. \<open>url_ok\<close> says which strings
  \<^verbatim>\<open>http.NewRequest\<close> accepts as a URL, \<open>transport\<close> answers a request; redirects
  and the timeout of the client are inside \<open>transport\<close>. The network gives one answer
  to a request for the whole of a run.
\<close>

datatype http_result = Failed | NoResponse | Response int

record request =
  Method :: string
  Target :: string
  Header :: "(string \<times> string) list"

record http_client =
  url_ok :: "string \<Rightarrow> bool"
  transport :: "request \<Rightarrow> http_result"

definition NewRequest :: "http_client \<Rightarrow> string \<Rightarrow> string \<Rightarrow> request option" where
  "NewRequest client method rawURL =
     (if url_ok client rawURL
      then Some \<lparr>Method = method, Target = rawURL, Header = []\<rparr> else None)"

definition Do :: "http_client \<Rightarrow> request \<Rightarrow> http_result" where
  "Do client req = transport client req"

text \<open>\<^verbatim>\<open>client.Head(url)\<close> builds a \<^verbatim>\<open>HEAD\<close> request and sends it.\<close>

definition Head :: "http_client \<Rightarrow> string \<Rightarrow> http_result" where
  "Head client rawURL =
     (case NewRequest client ''HEAD'' rawURL of
        None \<Rightarrow> Failed
      | Some req \<Rightarrow> Do client req)"

definition urlHealthy :: "http_client \<Rightarrow> string \<Rightarrow> bool" where
  "urlHealthy client rawURL =
     (if (case Head client rawURL of
            Response StatusCode \<Rightarrow> StatusCode < 400
          | _ \<Rightarrow> False)
      then True
      else (case NewRequest client ''GET'' rawURL of
              None \<Rightarrow> False
            | Some req \<Rightarrow>
                (case Do client (req\<lparr>Header := [(''Range'', ''bytes=0-0'')]\<rparr>) of
                   Response StatusCode \<Rightarrow> StatusCode < 400
                 | _ \<Rightarrow> False)))"

section \<open>The bounded concurrent prober\<close>

text \<open>
  \<^verbatim>\<open>checkDeadLinks\<close> and \<^verbatim>\<open>removeDeadLinks\<close> run the same loop: the main goroutine
  does \<^verbatim>\<open>wg.Add(1)\<close>, sends on the buffered channel \<^verbatim>\<open>sem\<close> (which blocks while the
  channel is full) and starts a goroutine; the goroutine probes its URL, records the
  outcome, bumps the progress counter, and on exit runs its deferred calls, first the
  receive from \<^verbatim>\<open>sem\<close>, then \<^verbatim>\<open>wg.Done()\<close>. After the loop the main goroutine waits
  in \<^verbatim>\<open>wg.Wait()\<close>.

  A run is a list of events chosen by the scheduler. \<open>Add\<close> and \<open>Send\<close> are the two
  steps of the main goroutine, \<open>Step i\<close> moves goroutine \<open>i\<close> on by one phase. An event
  that is not enabled (a send on a full channel, a step of a goroutine that does not
  exist or has exited) has no successor state.

  A goroutine is \<open>Probing\<close> while it is inside \<^verbatim>\<open>urlHealthy\<close>, \<open>Reported\<close> once it has
  recorded the outcome and bumped the progress counter, \<open>Released\<close> once it has
  received from \<^verbatim>\<open>sem\<close>, and \<open>Exited\<close> once it has called \<^verbatim>\<open>wg.Done()\<close>. The state
  holds the phases of the goroutines started so far, whether the main goroutine is
  between \<^verbatim>\<open>wg.Add(1)\<close> and the send, the number of tokens in \<^verbatim>\<open>sem\<close>, the counter of
  the wait group, the progress counter, and the collector of the outcomes
  (\<^verbatim>\<open>deadLinks\<close> or \<^verbatim>\<open>keep\<close>).
\<close>

datatype phase = Probing | Reported | Released | Exited

datatype event = Add | Send | Step nat

record 'c pool =
  phases :: "phase list"
  pending :: bool
  sem :: nat
  wg :: nat
  progress :: nat
  collector :: 'c

definition pool_init :: "'c \<Rightarrow> 'c pool" where
  "pool_init c = \<lparr>phases = [], pending = False, sem = 0, wg = 0, progress = 0, collector = c\<rparr>"

definition pool_step ::
  "(nat \<Rightarrow> 'c \<Rightarrow> 'c) \<Rightarrow> nat \<Rightarrow> nat \<Rightarrow> 'c pool \<Rightarrow> event \<Rightarrow> 'c pool option" where
  "pool_step report n cap s e =
     (case e of
        Add \<Rightarrow>
          if length (phases s) < n \<and> \<not> pending s
          then Some (s\<lparr>pending := True, wg := wg s + 1\<rparr>) else None
      | Send \<Rightarrow>
          if pending s \<and> sem s < cap
          then Some (s\<lparr>phases := phases s @ [Probing], pending := False, sem := sem s + 1\<rparr>)
          else None
      | Step i \<Rightarrow>
          if i < length (phases s) then
            (case phases s ! i of
               Probing \<Rightarrow>
                 Some (s\<lparr>phases := (phases s)[i := Reported],
                         collector := report i (collector s),
                         progress := progress s + 1\<rparr>)
             | Reported \<Rightarrow>
                 if 0 < sem s
                 then Some (s\<lparr>phases := (phases s)[i := Released], sem := sem s - 1\<rparr>)
                 else None
             | Released \<Rightarrow>
                 if 0 < wg s
                 then Some (s\<lparr>phases := (phases s)[i := Exited], wg := wg s - 1\<rparr>)
                 else None
             | Exited \<Rightarrow> None)
          else None)"

fun pool_run ::
  "(nat \<Rightarrow> 'c \<Rightarrow> 'c) \<Rightarrow> nat \<Rightarrow> nat \<Rightarrow> 'c pool \<Rightarrow> event list \<Rightarrow> 'c pool option" where
  "pool_run report n cap s [] = Some s"
| "pool_run report n cap s (e # es) =
     (case pool_step report n cap s e of
        None \<Rightarrow> None
      | Some s' \<Rightarrow> pool_run report n cap s' es)"

text \<open>
  \<^verbatim>\<open>make(chan struct{}, concurrency)\<close> panics on a negative capacity, before any
  goroutine is started; \<open>None\<close> is a run that has no state.
\<close>

definition pool_start ::
  "(nat \<Rightarrow> 'c \<Rightarrow> 'c) \<Rightarrow> nat \<Rightarrow> int \<Rightarrow> 'c \<Rightarrow> event list \<Rightarrow> 'c pool option" where
  "pool_start report n concurrency c sched =
     (if concurrency < 0 then None
      else pool_run report n (nat concurrency) (pool_init c) sched)"

text \<open>The main goroutine is past \<^verbatim>\<open>wg.Wait()\<close>: the loop is over and the counter is zero.\<close>

definition waited :: "nat \<Rightarrow> 'c pool \<Rightarrow> bool" where
  "waited n s \<longleftrightarrow> length (phases s) = n \<and> \<not> pending s \<and> wg s = 0"

text \<open>The probes in flight: the goroutines that are inside \<^verbatim>\<open>urlHealthy\<close>.\<close>

definition in_flight :: "'c pool \<Rightarrow> nat" where
  "in_flight s = length (filter (\<lambda>p. p = Probing) (phases s))"

text \<open>
  \<^verbatim>\<open>checkDeadLinks\<close>: a goroutine whose probe fails appends its bookmark to
  \<^verbatim>\<open>deadLinks\<close> under the mutex. The result is \<open>None\<close> when the call does not return
  under the given schedule.
\<close>

definition checkDeadLinks_report :: "http_client \<Rightarrow> Bookmark list \<Rightarrow> nat \<Rightarrow> Bookmark list \<Rightarrow> Bookmark list" where
  "checkDeadLinks_report client bookmarks i deadLinks =
     (let b = bookmarks ! i;
          ok = urlHealthy client (URL b)
      in if \<not> ok then deadLinks @ [b] else deadLinks)"

definition checkDeadLinks_pool ::
  "http_client \<Rightarrow> Bookmark list \<Rightarrow> int \<Rightarrow> event list \<Rightarrow> Bookmark list pool option" where
  "checkDeadLinks_pool client bookmarks concurrency sched =
     pool_start (checkDeadLinks_report client bookmarks) (length bookmarks) concurrency [] sched"

definition checkDeadLinks ::
  "http_client \<Rightarrow> Bookmark list \<Rightarrow> int \<Rightarrow> event list \<Rightarrow> Bookmark list option" where
  "checkDeadLinks client bookmarks concurrency sched =
     (case checkDeadLinks_pool client bookmarks concurrency sched of
        None \<Rightarrow> None
      | Some s \<Rightarrow> if waited (length bookmarks) s then Some (collector s) else None)"

text \<open>
  \<^verbatim>\<open>removeDeadLinks\<close>: a goroutine whose probe succeeds sets its own slot of \<^verbatim>\<open>keep\<close>;
  after the wait the kept bookmarks are collected in index order.
\<close>

definition removeDeadLinks_report :: "http_client \<Rightarrow> Bookmark list \<Rightarrow> nat \<Rightarrow> bool list \<Rightarrow> bool list" where
  "removeDeadLinks_report client bookmarks i keep =
     (let bm = bookmarks ! i
      in if urlHealthy client (URL bm) then keep[i := True] else keep)"

definition removeDeadLinks_pool ::
  "http_client \<Rightarrow> Bookmark list \<Rightarrow> int \<Rightarrow> event list \<Rightarrow> bool list pool option" where
  "removeDeadLinks_pool client bookmarks concurrency sched =
     pool_start (removeDeadLinks_report client bookmarks) (length bookmarks) concurrency
       (replicate (length bookmarks) False) sched"

fun keep_loop :: "bool list \<Rightarrow> Bookmark list \<Rightarrow> nat \<Rightarrow> Bookmark list \<Rightarrow> Bookmark list" where
  "keep_loop [] bookmarks i activeBookmarks = activeBookmarks"
| "keep_loop (k # keep) bookmarks i activeBookmarks =
     keep_loop keep bookmarks (i + 1)
       (if k then activeBookmarks @ [bookmarks ! i] else activeBookmarks)"

definition removeDeadLinks ::
  "http_client \<Rightarrow> Bookmark list \<Rightarrow> int \<Rightarrow> event list \<Rightarrow> Bookmark list option" where
  "removeDeadLinks client bookmarks concurrency sched =
     (case removeDeadLinks_pool client bookmarks concurrency sched of
        None \<Rightarrow> None
      | Some s \<Rightarrow>
          if waited (length bookmarks) s
          then Some (keep_loop (collector s) bookmarks 0 []) else None)"

section \<open>Rewriting the partitions\<close>

text \<open>
  The three write loops of \<^verbatim>\<open>saveBookmarksClassified\<close> have the same body: marshal
  the bookmark, add it to a sorted set under its creation time, add its URL to a set.
  The results of both commands are dropped, as in the source.
\<close>

fun write_loop ::
  "'s codec \<Rightarrow> string \<Rightarrow> string \<Rightarrow> Bookmark list \<Rightarrow> 's redis \<Rightarrow> 's redis" where
  "write_loop env zkey skey [] st = st"
| "write_loop env zkey skey (bm # rest) st =
     (let jsonData = marshal env bm;
          st1 = snd (ZAdd zkey (float64 env (CreatedAt bm)) jsonData st);
          st2 = snd (SAdd skey (URL bm) st1)
      in write_loop env zkey skey rest st2)"

fun activeURL_loop :: "(string \<Rightarrow> bool) \<Rightarrow> Bookmark list \<Rightarrow> (string \<Rightarrow> bool)" where
  "activeURL_loop activeURL [] = activeURL"
| "activeURL_loop activeURL (bm # rest) = activeURL_loop (activeURL(URL bm := True)) rest"

fun dead_loop :: "(string \<Rightarrow> bool) \<Rightarrow> Bookmark list \<Rightarrow> Bookmark list \<Rightarrow> Bookmark list" where
  "dead_loop activeURL [] dead = dead"
| "dead_loop activeURL (bm # rest) dead =
     dead_loop activeURL rest (if \<not> activeURL (URL bm) then dead @ [bm] else dead)"

definition saveBookmarksClassified ::
  "('s::linorder) codec \<Rightarrow> Bookmark list \<Rightarrow> 's redis \<Rightarrow> error option \<times> 's redis" where
  "saveBookmarksClassified env active st =
     (case getAllBookmarks env st of
        (Inl err, st0) \<Rightarrow> (Some err, st0)
      | (Inr all, st0) \<Rightarrow>
          (let activeURL = activeURL_loop (\<lambda>_. False) active;
               dead = dead_loop activeURL all [];
               st1 = snd (Del RedisBookmarksActiveKey st0);
               st2 = snd (Del RedisBookmarksDeadKey st1);
               st3 = snd (Del RedisURLSetActive st2);
               st4 = snd (Del RedisURLSetDead st3);
               st5 = write_loop env RedisBookmarksActiveKey RedisURLSetActive active st4;
               st6 = write_loop env RedisBookmarksDeadKey RedisURLSetDead dead st5;
               st7 = snd (Del RedisBookmarksKey st6);
               st8 = snd (Del RedisURLSetKey st7);
               st9 = write_loop env RedisBookmarksKey RedisURLSetKey active st8
           in (None, st9)))"

section \<open>The commands\<close>

text \<open>
  A command takes the store and returns its error (\<open>None\<close> is \<^verbatim>\<open>nil\<close>), what it
  printed, and the store it leaves. The numbers and lists a command prints are
  returned as a report. \<open>check\<close> and \<open>clean\<close> take the value of \<^verbatim>\<open>--concurrency\<close> and
  the schedule of the prober; they are \<open>None\<close> when the prober does not return. The
  \<^verbatim>\<open>--timeout\<close> flag only configures the HTTP client.
\<close>

record check_report =
  total :: nat
  duplicates :: "DuplicateInfo list"
  deadLinks :: "Bookmark list"

definition checkBookmarks ::
  "('s::linorder) codec \<Rightarrow> http_client \<Rightarrow> int \<Rightarrow> event list \<Rightarrow> 's redis
     \<Rightarrow> (error option \<times> check_report option \<times> 's redis) option" where
  "checkBookmarks env client concurrency sched st =
     (case getAllBookmarks env st of
        (Inl err, st') \<Rightarrow> Some (Some err, None, st')
      | (Inr bookmarks, st') \<Rightarrow>
          if length bookmarks = 0 then Some (None, None, st')
          else
            (let dups = findDuplicates bookmarks
             in case checkDeadLinks client bookmarks concurrency sched of
                  None \<Rightarrow> None
                | Some dead \<Rightarrow>
                    Some (None,
                          Some \<lparr>total = length bookmarks, duplicates = dups, deadLinks = dead\<rparr>,
                          st')))"

record clean_report =
  removed_duplicates :: int
  removed_dead :: int
  remaining :: nat

definition cleanBookmarks ::
  "('s::linorder) codec \<Rightarrow> http_client \<Rightarrow> int \<Rightarrow> event list \<Rightarrow> 's redis
     \<Rightarrow> (error option \<times> clean_report option \<times> 's redis) option" where
  "cleanBookmarks env client concurrency sched st =
     (case getAllBookmarks env st of
        (Inl err, st') \<Rightarrow> Some (Some err, None, st')
      | (Inr bookmarks, st') \<Rightarrow>
          if length bookmarks = 0 then Some (None, None, st')
          else
            (let uniqueBookmarks = removeDuplicates bookmarks
             in case removeDeadLinks client uniqueBookmarks concurrency sched of
                  None \<Rightarrow> None
                | Some activeBookmarks \<Rightarrow>
                    (case saveBookmarksClassified env activeBookmarks st' of
                       (Some err, st'') \<Rightarrow> Some (Some err, None, st'')
                     | (None, st'') \<Rightarrow>
                         Some (None,
                               Some \<lparr>removed_duplicates =
                                       int (length bookmarks) - int (length uniqueBookmarks),
                                     removed_dead =
                                       int (length uniqueBookmarks) - int (length activeBookmarks),
                                     remaining = length activeBookmarks\<rparr>,
                               st''))))"

text \<open>
  \<^verbatim>\<open>listBookmarks\<close>: with \<^verbatim>\<open>--include-dead\<close> both sorted sets are read before either
  error is looked at.
\<close>

definition listBookmarks ::
  "('s::linorder) codec \<Rightarrow> bool \<Rightarrow> 's redis \<Rightarrow> error option \<times> Bookmark list \<times> 's redis" where
  "listBookmarks env includeDead st =
     (if includeDead then
        (case getFromZSet env RedisBookmarksActiveKey st of
           (r1, st1) \<Rightarrow>
             (case getFromZSet env RedisBookmarksDeadKey st1 of
                (r2, st2) \<Rightarrow>
                  (case r1 of
                     Inl err1 \<Rightarrow> (Some err1, [], st2)
                   | Inr active \<Rightarrow>
                       (case r2 of
                          Inl err2 \<Rightarrow> (Some err2, [], st2)
                        | Inr dead \<Rightarrow> (None, active @ dead, st2)))))
      else
        (case getFromZSet env RedisBookmarksActiveKey st of
           (Inl err, st1) \<Rightarrow> (Some err, [], st1)
         | (Inr bookmarks, st1) \<Rightarrow> (None, bookmarks, st1)))"

text \<open>
  \<^verbatim>\<open>filterByQueryTags\<close>, with \<^verbatim>\<open>strings.ToLower\<close> and \<^verbatim>\<open>strings.TrimSpace\<close> taken as
  given functions. \<^verbatim>\<open>strings.Contains(s, q)\<close> holds when \<open>q\<close> occurs in \<open>s\<close>.
\<close>

record strings_lib =
  ToLower :: "string \<Rightarrow> string"
  TrimSpace :: "string \<Rightarrow> string"

definition Contains :: "string \<Rightarrow> string \<Rightarrow> bool" where
  "Contains s substr = list_ex (\<lambda>t. prefix substr t) (suffixes s)"

definition filterByQueryTags ::
  "strings_lib \<Rightarrow> Bookmark list \<Rightarrow> string \<Rightarrow> string list \<Rightarrow> Bookmark list" where
  "filterByQueryTags lib items q0 tags =
     (let q = ToLower lib (TrimSpace lib q0);
          wantTags = map (ToLower lib) tags
      in filter (\<lambda>bm.
           (q = [] \<or> Contains (ToLower lib (Title bm)) q
                   \<or> Contains (ToLower lib (Description bm)) q)
           \<and> (length wantTags = 0
                \<or> list_all (\<lambda>wt. list_ex (\<lambda>t. ToLower lib t = wt) (Tags bm)) wantTags))
         items)"

text \<open>\<^verbatim>\<open>searchBookmarksCmd\<close> drops the errors of both reads; a failed read gives no records.\<close>

definition searchBookmarksCmd ::
  "('s::linorder) codec \<Rightarrow> strings_lib \<Rightarrow> string \<Rightarrow> string list \<Rightarrow> bool \<Rightarrow> int \<Rightarrow> 's redis
     \<Rightarrow> error option \<times> Bookmark list \<times> 's redis" where
  "searchBookmarksCmd env lib q tags includeDead limit st =
     (case getFromZSet env RedisBookmarksActiveKey st of
        (r1, st1) \<Rightarrow>
          (let active = (case r1 of Inl _ \<Rightarrow> [] | Inr bs \<Rightarrow> bs);
               (pool, st2) =
                 (if includeDead then
                    (case getFromZSet env RedisBookmarksDeadKey st1 of
                       (r2, st2) \<Rightarrow> (active @ (case r2 of Inl _ \<Rightarrow> [] | Inr bs \<Rightarrow> bs), st2))
                  else (active, st1));
               filtered = filterByQueryTags lib pool q tags;
               filtered' = (if limit > 0 \<and> int (length filtered) > limit
                            then take (nat limit) filtered else filtered)
           in (None, filtered', st2)))"

definition deadShowCmd ::
  "('s::linorder) codec \<Rightarrow> 's redis \<Rightarrow> error option \<times> Bookmark list \<times> 's redis" where
  "deadShowCmd env st =
     (case getFromZSet env RedisBookmarksDeadKey st of
        (Inl err, st1) \<Rightarrow> (Some err, [], st1)
      | (Inr dead, st1) \<Rightarrow> (None, dead, st1))"

definition deadPurgeCmd :: "'s redis \<Rightarrow> error option \<times> 's redis" where
  "deadPurgeCmd st =
     (let st1 = snd (Del RedisBookmarksDeadKey st);
          st2 = snd (Del RedisURLSetDead st1)
      in (None, st2))"

text \<open>
  \<^verbatim>\<open>deadReviveCmd\<close>: the error of the read is dropped, so a failed read scans no
  records. The loop returns at the first record with the URL.
\<close>

fun revive_loop ::
  "'s codec \<Rightarrow> string \<Rightarrow> Bookmark list \<Rightarrow> 's redis \<Rightarrow> error option \<times> 's redis" where
  "revive_loop env url [] st = (Some (Exit ''url not found in dead list'' 1), st)"
| "revive_loop env url (bm # rest) st =
     (if URL bm = url then
        (let jsonData = marshal env bm;
             st1 = snd (ZAdd RedisBookmarksActiveKey (float64 env (CreatedAt bm)) jsonData st);
             st2 = snd (SAdd RedisURLSetActive (URL bm) st1);
             st3 = snd (SRem RedisURLSetDead (URL bm) st2);
             st4 = snd (ZAdd RedisBookmarksKey (float64 env (CreatedAt bm)) jsonData st3)
         in (None, st4))
      else revive_loop env url rest st)"

definition deadReviveCmd ::
  "('s::linorder) codec \<Rightarrow> string list \<Rightarrow> 's redis \<Rightarrow> error option \<times> 's redis" where
  "deadReviveCmd env args st =
     (case args of
        [] \<Rightarrow> (Some (Exit ''missing <url>'' 1), st)
      | url # _ \<Rightarrow>
          (case getFromZSet env RedisBookmarksDeadKey st of
             (r, st1) \<Rightarrow>
               revive_loop env url (case r of Inl _ \<Rightarrow> [] | Inr dead \<Rightarrow> dead) st1))"

text \<open>The \<^verbatim>\<open>import\<close> command of this program only prints a message.\<close>

definition importBookmarks :: "'s redis \<Rightarrow> error option \<times> 's redis" where
  "importBookmarks st = (None, st)"

section \<open>Notions used to state the properties\<close>


text \<open>A store that answers every command still to come.\<close>

definition reliable :: "'s redis \<Rightarrow> bool" where
  "reliable st \<longleftrightarrow> True \<notin> set (faults st)"

text \<open>The rows that writing the bookmarks one after the other leaves in a sorted set.\<close>

fun zrows :: "'s codec \<Rightarrow> Bookmark list \<Rightarrow> (string \<times> 's) list \<Rightarrow> (string \<times> 's) list" where
  "zrows env [] rows = rows"
| "zrows env (bm # rest) rows =
     zrows env rest (zadd_rows (marshal env bm) (float64 env (CreatedAt bm)) rows)"


text \<open>
  The invariants of the prober's run: the channel holds one token for every goroutine
  that has not yet received from it, it is never over its capacity, and the wait
  group counts the goroutines that have not called \<^verbatim>\<open>Done\<close>, plus the pending
  \<^verbatim>\<open>Add\<close>.
\<close>

definition holding :: "phase \<Rightarrow> bool" where
  "holding p \<longleftrightarrow> p = Probing \<or> p = Reported"

definition pool_inv :: "nat \<Rightarrow> 'c pool \<Rightarrow> bool" where
  "pool_inv cap s \<longleftrightarrow>
     sem s = length (filter holding (phases s)) \<and> sem s \<le> cap
     \<and> wg s = length (filter (\<lambda>p. p \<noteq> Exited) (phases s)) + (if pending s then 1 else 0)"

text \<open>
  The invariant of the \<^verbatim>\<open>keep\<close> array: a slot is set exactly when its goroutine has
  finished its probe and found the URL healthy.
\<close>

definition keep_inv :: "http_client \<Rightarrow> Bookmark list \<Rightarrow> bool list pool \<Rightarrow> bool" where
  "keep_inv client bookmarks s \<longleftrightarrow>
     length (collector s) = length bookmarks \<and> length (phases s) \<le> length bookmarks
     \<and> (pending s \<longrightarrow> length (phases s) < length bookmarks)
     \<and> (\<forall>i < length bookmarks.
          collector s ! i \<longleftrightarrow>
            (i < length (phases s) \<and> phases s ! i \<noteq> Probing
             \<and> urlHealthy client (URL (bookmarks ! i))))"

text \<open>
  The schedule that runs the goroutines one after the other, and the states between
  two of its rounds.
\<close>

definition sequential_schedule :: "nat \<Rightarrow> event list" where
  "sequential_schedule n = concat (map (\<lambda>j. [Add, Send, Step j, Step j, Step j]) [0..<n])"

definition idle :: "nat \<Rightarrow> 'c pool \<Rightarrow> bool" where
  "idle i s \<longleftrightarrow> phases s = replicate i Exited \<and> \<not> pending s \<and> sem s = 0 \<and> wg s = 0"

section \<open>Test doubles\<close>

text \<open>
  A small codec in the place of \<^verbatim>\<open>encoding/json\<close>: the creation time in unary, a
  colon, the URL. A string without a colon after the leading plus signs does not
  parse. Scores are the creation times themselves.
\<close>

definition test_marshal :: "Bookmark \<Rightarrow> string" where
  "test_marshal bm = replicate (nat (CreatedAt bm)) (CHR ''+'') @ CHR '':'' # URL bm"

definition test_unmarshal :: "string \<Rightarrow> Bookmark option" where
  "test_unmarshal s =
     (case dropWhile (\<lambda>c. c = CHR ''+'') s of
        [] \<Rightarrow> None
      | c # u \<Rightarrow>
          if c = CHR '':''
          then Some \<lparr>URL = u, Title = [], Description = [], Tags = [],
                     CreatedAt = int (length (takeWhile (\<lambda>c. c = CHR ''+'') s)),
                     UpdatedAt = 0, ID = [], Status = []\<rparr>
          else None)"

definition test_codec :: "int codec" where
  "test_codec = \<lparr>marshal = test_marshal, unmarshal = test_unmarshal, float64 = (\<lambda>i. i)\<rparr>"

text \<open>The record with the given URL and creation time, all other fields zero.\<close>

definition mk :: "string \<Rightarrow> int \<Rightarrow> Bookmark" where
  "mk u t = \<lparr>URL = u, Title = [], Description = [], Tags = [],
             CreatedAt = t, UpdatedAt = 0, ID = [], Status = []\<rparr>"

text \<open>
  A fake network: every URL is well formed, \<^verbatim>\<open>HEAD\<close> is answered with 405, and
  \<^verbatim>\<open>GET\<close> with 206 for the listed URLs and 404 for the others.
\<close>

definition test_client :: "string list \<Rightarrow> http_client" where
  "test_client healthy =
     \<lparr>url_ok = (\<lambda>_. True),
      transport = (\<lambda>req. if Method req = ''GET'' \<and> Target req \<in> set healthy
                          then Response 206
                          else if Method req = ''GET'' then Response 404 else Response 405)\<rparr>"

text \<open>
  A store with the given rows in the combined index and in the dead index, the given
  URLs in the dead membership set, and the given command failures to come.
\<close>

definition test_store ::
  "(string \<times> int) list \<Rightarrow> (string \<times> int) list \<Rightarrow> string set \<Rightarrow> bool list \<Rightarrow> int redis" where
  "test_store rows dead_rows dead_urls fs =
     \<lparr>zsets = (\<lambda>_. [])(RedisBookmarksKey := rows, RedisBookmarksDeadKey := dead_rows),
      sets = (\<lambda>_. {})(RedisURLSetDead := dead_urls),
      faults = fs\<rparr>"

section \<open>Properties of deduplication\<close>











section \<open>Evaluation on the test doubles\<close>

lemma keys_distinct:
  "RedisBookmarksKey \<noteq> RedisURLSetKey" "RedisBookmarksKey \<noteq> RedisBookmarksActiveKey"
  "RedisBookmarksKey \<noteq> RedisBookmarksDeadKey" "RedisBookmarksKey \<noteq> RedisURLSetActive"
  "RedisBookmarksKey \<noteq> RedisURLSetDead" "RedisURLSetKey \<noteq> RedisBookmarksActiveKey"
  "RedisURLSetKey \<noteq> RedisBookmarksDeadKey" "RedisURLSetKey \<noteq> RedisURLSetActive"
  "RedisURLSetKey \<noteq> RedisURLSetDead" "RedisBookmarksActiveKey \<noteq> RedisBookmarksDeadKey"
  "RedisBookmarksActiveKey \<noteq> RedisURLSetActive" "RedisBookmarksActiveKey \<noteq> RedisURLSetDead"
  "RedisBookmarksDeadKey \<noteq> RedisURLSetActive" "RedisBookmarksDeadKey \<noteq> RedisURLSetDead"
  "RedisURLSetActive \<noteq> RedisURLSetDead"
  by (simp_all add: RedisBookmarksKey_def RedisURLSetKey_def RedisBookmarksActiveKey_def
      RedisBookmarksDeadKey_def RedisURLSetActive_def RedisURLSetDead_def)

lemmas keys_ne = keys_distinct keys_distinct [symmetric]

text \<open>
  The commands on a store written out as a record. These equations only apply to a
  store that is given explicitly, so they evaluate a command sequence step by step.
\<close>

lemma cmds_lit:
  "Del key \<lparr>zsets = z, sets = s, faults = fs\<rparr>
     = (if (case fs of [] \<Rightarrow> False | f # _ \<Rightarrow> f)
        then (Some RedisError, \<lparr>zsets = z, sets = s, faults = tl fs\<rparr>)
        else (None, \<lparr>zsets = z(key := []), sets = s(key := {}), faults = tl fs\<rparr>))"
  "ZAdd key score member \<lparr>zsets = z, sets = s, faults = fs\<rparr>
     = (if (case fs of [] \<Rightarrow> False | f # _ \<Rightarrow> f)
        then (Some RedisError, \<lparr>zsets = z, sets = s, faults = tl fs\<rparr>)
        else (None, \<lparr>zsets = z(key := zadd_rows member score (z key)), sets = s,
                      faults = tl fs\<rparr>))"
  "SAdd key member \<lparr>zsets = z, sets = s, faults = fs\<rparr>
     = (if (case fs of [] \<Rightarrow> False | f # _ \<Rightarrow> f)
        then (Some RedisError, \<lparr>zsets = z, sets = s, faults = tl fs\<rparr>)
        else (None, \<lparr>zsets = z, sets = s(key := insert member (s key)), faults = tl fs\<rparr>))"
  "SRem key member \<lparr>zsets = z, sets = s, faults = fs\<rparr>
     = (if (case fs of [] \<Rightarrow> False | f # _ \<Rightarrow> f)
        then (Some RedisError, \<lparr>zsets = z, sets = s, faults = tl fs\<rparr>)
        else (None, \<lparr>zsets = z, sets = s(key := s key - {member}), faults = tl fs\<rparr>))"
  by (simp_all add: Del_def ZAdd_def SAdd_def SRem_def fails_def advance_def)

lemma read_lit:
  "ZRangeWithScores key \<lparr>zsets = z, sets = s, faults = fs\<rparr>
     = (if (case fs of [] \<Rightarrow> False | f # _ \<Rightarrow> f)
        then (Inl RedisError, \<lparr>zsets = z, sets = s, faults = tl fs\<rparr>)
        else (Inr (sort_key (\<lambda>z. (snd z, fst z)) (z key)),
              \<lparr>zsets = z, sets = s, faults = tl fs\<rparr>))"
  by (simp add: ZRangeWithScores_def fails_def advance_def)

lemma test_codec_simps:
  "marshal test_codec (mk ''a'' 1) = ''+:a''"
  "marshal test_codec (mk ''a'' 2) = ''++:a''"
  "marshal test_codec (mk ''b'' 3) = ''+++:b''"
  "float64 test_codec t = t"
  "unmarshal test_codec = test_unmarshal"
  "URL (mk u t) = u" "CreatedAt (mk u t) = t"
  by (simp_all add: test_codec_def test_marshal_def mk_def eval_nat_numeral)

lemma test_unmarshal_simps:
  "test_unmarshal ''+:a'' = Some (mk ''a'' 1)"
  "test_unmarshal ''++:a'' = Some (mk ''a'' 2)"
  "test_unmarshal ''+++:b'' = Some (mk ''b'' 3)"
  "test_unmarshal ''+:x'' = Some (mk ''x'' 1)"
  "test_unmarshal ''garbage'' = None"
  by (simp_all add: test_unmarshal_def mk_def)

lemmas lit_eval = cmds_lit read_lit test_codec_simps test_unmarshal_simps keys_ne
  getAllBookmarks_def getFromZSet_def test_store_def zadd_rows_def


lemma test_store_reliable: "reliable (test_store rows dead_rows dead_urls [])"
  by (simp add: reliable_def test_store_def)

section \<open>Properties of the health probe\<close>

text \<open>
  C4. For every URL: when the \<^verbatim>\<open>HEAD\<close> request is answered with a status below 400 the
  URL is healthy; when it is not (an error, no response, or a status of 400 or more)
  the URL is healthy exactly when the \<^verbatim>\<open>GET\<close> request with the header
  \<^verbatim>\<open>Range: bytes=0-0\<close> is answered with a status below 400; a URL for which no request
  can be built is unhealthy. The result is a truth value in every case, never an error.
\<close>

theorem urlHealthy_classification:
  fixes client :: http_client and u :: string
  defines "head \<equiv> transport client \<lparr>Method = ''HEAD'', Target = u, Header = []\<rparr>"
    and "get \<equiv> transport client
                 \<lparr>Method = ''GET'', Target = u, Header = [(''Range'', ''bytes=0-0'')]\<rparr>"
  shows "(url_ok client u \<and> (\<exists>sc. head = Response sc \<and> sc < 400) \<longrightarrow> urlHealthy client u)
       \<and> (url_ok client u \<and> \<not> (\<exists>sc. head = Response sc \<and> sc < 400) \<longrightarrow>
            (urlHealthy client u \<longleftrightarrow> (\<exists>sc. get = Response sc \<and> sc < 400)))
       \<and> (\<not> url_ok client u \<longrightarrow> \<not> urlHealthy client u)"
  unfolding head_def get_def
  by (auto simp: urlHealthy_def Head_def NewRequest_def Do_def split: http_result.splits)

theorem urlHealthy_classification_witness:
  "url_ok (test_client [''b'']) ''b''
   \<and> \<not> (\<exists>sc. transport (test_client [''b'']) \<lparr>Method = ''HEAD'', Target = ''b'', Header = []\<rparr>
              = Response sc \<and> sc < 400)
   \<and> urlHealthy (test_client [''b'']) ''b''
   \<and> \<not> urlHealthy (test_client [''b'']) ''a''"
  using urlHealthy_classification [of "test_client [''b'']" "''b''"]
    urlHealthy_classification [of "test_client [''b'']" "''a''"]
  by (simp add: test_client_def)

section \<open>Properties of the scan\<close>

lemma scan_loop_filter:
  "scan_loop env results acc
     = acc @ map (\<lambda>z. the (unmarshal env (fst z)))
               (filter (\<lambda>z. unmarshal env (fst z) \<noteq> None) results)"
  by (induction results arbitrary: acc) (auto split: option.splits)

text \<open>
  C8. When the read of a sorted set succeeds, the scan returns the parsed records of
  exactly the members that parse, in the order of the read; a member that does not
  parse is left out, is not counted, and does not turn the result into an error. This
  holds for \<^verbatim>\<open>getFromZSet\<close> on every key and for \<^verbatim>\<open>getAllBookmarks\<close> on the combined
  index.
\<close>

theorem scan_skips_malformed:
  fixes env :: "('s::linorder) codec"
  assumes "ZRangeWithScores zkey st = (Inr results, st')"
  defines "good \<equiv> filter (\<lambda>z. unmarshal env (fst z) \<noteq> None) results"
  shows "getFromZSet env zkey st = (Inr (map (\<lambda>z. the (unmarshal env (fst z))) good), st')
       \<and> (zkey = RedisBookmarksKey \<longrightarrow>
            getAllBookmarks env st = (Inr (map (\<lambda>z. the (unmarshal env (fst z))) good), st'))
       \<and> length good
           = length results - length (filter (\<lambda>z. unmarshal env (fst z) = None) results)"
proof -
  have "length results = length good
          + length (filter (\<lambda>z. unmarshal env (fst z) = None) results)"
    unfolding good_def using sum_length_filter_compl [of "\<lambda>z. unmarshal env (fst z) \<noteq> None" results]
    by simp
  then show ?thesis
    using assms(1) by (auto simp: getFromZSet_def getAllBookmarks_def scan_loop_filter good_def)
qed

theorem scan_skips_malformed_witness:
  "ZRangeWithScores RedisBookmarksKey
       (test_store [(''+++:b'', 3), (''garbage'', 2), (''+:a'', 1)] [] {} [])
     = (Inr [(''+:a'', 1), (''garbage'', 2), (''+++:b'', 3)],
        test_store [(''+++:b'', 3), (''garbage'', 2), (''+:a'', 1)] [] {} [])
   \<and> getAllBookmarks test_codec
         (test_store [(''+++:b'', 3), (''garbage'', 2), (''+:a'', 1)] [] {} [])
     = (Inr [mk ''a'' 1, mk ''b'' 3],
        test_store [(''+++:b'', 3), (''garbage'', 2), (''+:a'', 1)] [] {} [])
   \<and> length (filter (\<lambda>z. unmarshal test_codec (fst z) \<noteq> None)
                [(''+:a'', 1::int), (''garbage'', 2), (''+++:b'', 3)]) = 2"
proof -
  have h: "ZRangeWithScores RedisBookmarksKey
       (test_store [(''+++:b'', 3), (''garbage'', 2), (''+:a'', 1)] [] {} [])
     = (Inr [(''+:a'', 1), (''garbage'', 2), (''+++:b'', 3)],
        test_store [(''+++:b'', 3), (''garbage'', 2), (''+:a'', 1)] [] {} [])"
    by (simp add: lit_eval)
  from scan_skips_malformed [OF h, of test_codec] h show ?thesis
    by (simp add: test_codec_simps test_unmarshal_simps)
qed

section \<open>Properties of the bounded concurrent prober\<close>

lemma pool_run_invariant:
  assumes "pool_run report n cap s es = Some t" and "P s"
    and "\<And>s e s'. P s \<Longrightarrow> pool_step report n cap s e = Some s' \<Longrightarrow> P s'"
  shows "P t"
  using assms(1,2)
proof (induction es arbitrary: s)
  case Nil
  then show ?case by simp
next
  case (Cons e es)
  from Cons.prems(1) obtain s' where st: "pool_step report n cap s e = Some s'"
    and run: "pool_run report n cap s' es = Some t"
    by (auto split: option.splits)
  from assms(3) [OF Cons.prems(2) st] have "P s'" .
  with Cons.IH run show ?case by blast
qed

lemma filter_length_update:
  "i < length xs \<Longrightarrow>
   length (filter P (xs[i := y])) + (if P (xs ! i) then 1 else 0)
     = length (filter P xs) + (if P y then 1 else 0)"
proof (induction xs arbitrary: i)
  case Nil
  then show ?case by simp
next
  case (Cons x xs)
  show ?case
  proof (cases i)
    case 0
    then show ?thesis by simp
  next
    case (Suc j)
    with Cons.prems have "j < length xs" by simp
    from Cons.IH [OF this] Suc show ?thesis by simp
  qed
qed

lemma pool_inv_init: "pool_inv cap (pool_init c)"
  by (simp add: pool_inv_def pool_init_def)

lemma pool_inv_step:
  assumes "pool_inv cap s" and "pool_step report n cap s e = Some s'"
  shows "pool_inv cap s'"
proof (cases e)
  case Add
  with assms show ?thesis
    by (auto simp: pool_step_def pool_inv_def split: if_splits)
next
  case Send
  with assms show ?thesis
    by (auto simp: pool_step_def pool_inv_def holding_def split: if_splits)
next
  case (Step i)
  with assms(2) have i: "i < length (phases s)"
    by (auto simp: pool_step_def split: if_splits)
  note h = filter_length_update [OF i, of holding] filter_length_update [OF i, of "\<lambda>p. p \<noteq> Exited"]
  show ?thesis
  proof (cases "phases s ! i")
    case Probing
    with assms Step i h [of Reported] show ?thesis
      by (auto simp: pool_step_def pool_inv_def holding_def)
  next
    case Reported
    with assms Step i h [of Released] show ?thesis
      by (auto simp: pool_step_def pool_inv_def holding_def split: if_splits)
  next
    case Released
    with assms Step i h [of Exited] show ?thesis
      by (auto simp: pool_step_def pool_inv_def holding_def split: if_splits)
  next
    case Exited
    with assms Step i show ?thesis by (simp add: pool_step_def)
  qed
qed

lemma pool_start_inv:
  assumes "pool_start report n k c sched = Some s"
  shows "0 \<le> k \<and> pool_inv (nat k) s"
proof -
  from assms have k: "0 \<le> k" and run: "pool_run report n (nat k) (pool_init c) sched = Some s"
    by (auto simp: pool_start_def split: if_splits)
  have "pool_inv (nat k) s"
    by (rule pool_run_invariant [OF run, of "pool_inv (nat k)"])
       (auto intro: pool_inv_init pool_inv_step)
  with k show ?thesis by simp
qed

lemma filter_length_mono:
  "(\<And>x. P x \<Longrightarrow> Q x) \<Longrightarrow> length (filter P xs) \<le> length (filter Q xs)"
  by (induction xs) auto

lemma in_flight_le_cap: "pool_inv cap s \<Longrightarrow> in_flight s \<le> cap"
  using filter_length_mono [of "\<lambda>p. p = Probing" holding "phases s"]
  by (simp add: pool_inv_def in_flight_def holding_def)

lemma waited_all_exited:
  assumes "pool_inv cap s" and "waited n s"
  shows "phases s = replicate n Exited"
proof -
  from assms have len: "length (phases s) = n"
    and "filter (\<lambda>p. p \<noteq> Exited) (phases s) = []"
    by (auto simp: pool_inv_def waited_def)
  then have "\<forall>p \<in> set (phases s). p = Exited"
    by (simp add: filter_empty_conv)
  with len show ?thesis
    by (simp add: list_eq_iff_nth_eq)
qed

lemma pool_bounded:
  assumes "pool_start report n k c sched = Some s"
  shows "int (in_flight s) \<le> k \<and> (waited n s \<longrightarrow> phases s = replicate n Exited)"
proof -
  from pool_start_inv [OF assms] have k: "0 \<le> k" and inv: "pool_inv (nat k) s" by simp_all
  from in_flight_le_cap [OF inv] k have "int (in_flight s) \<le> k" by linarith
  with waited_all_exited [OF inv] show ?thesis by blast
qed

lemma pool_run_append:
  "pool_run report n cap s (es @ es')
     = (case pool_run report n cap s es of None \<Rightarrow> None
        | Some m \<Rightarrow> pool_run report n cap m es')"
  by (induction es arbitrary: s) (auto split: option.splits)

lemma pool_start_prefix:
  assumes "pool_start report n k c sched = Some s"
  shows "\<exists>m. pool_start report n k c (take j sched) = Some m"
proof -
  from assms have k: "0 \<le> k"
    and run: "pool_run report n (nat k) (pool_init c) (take j sched @ drop j sched) = Some s"
    by (auto simp: pool_start_def split: if_splits)
  from run obtain m where "pool_run report n (nat k) (pool_init c) (take j sched) = Some m"
    unfolding pool_run_append by (auto split: option.splits)
  with k show ?thesis by (simp add: pool_start_def)
qed

text \<open>
  C9. For every record list, every value \<open>k\<close> of the concurrency parameter and every
  schedule, in check mode and in clean mode: after every prefix of the schedule at most
  \<open>k\<close> goroutines are inside the probe, and when the main goroutine is past the wait,
  every goroutine has been started and has exited. Whenever \<^verbatim>\<open>checkDeadLinks\<close> or
  \<^verbatim>\<open>removeDeadLinks\<close> returns a list, the run has reached a state in which every
  goroutine has been started and has exited and no probe is in flight. A negative \<open>k\<close>
  makes the creation of the channel panic, so that no run exists and no probe is
  started.
\<close>

theorem probes_bounded:
  "(checkDeadLinks_pool client bookmarks k sched = Some s \<longrightarrow>
      (\<forall>j. \<exists>m. checkDeadLinks_pool client bookmarks k (take j sched) = Some m
                \<and> int (in_flight m) \<le> k)
      \<and> (waited (length bookmarks) s \<longrightarrow> phases s = replicate (length bookmarks) Exited))
   \<and> (removeDeadLinks_pool client bookmarks k sched = Some s' \<longrightarrow>
      (\<forall>j. \<exists>m. removeDeadLinks_pool client bookmarks k (take j sched) = Some m
                \<and> int (in_flight m) \<le> k)
      \<and> (waited (length bookmarks) s' \<longrightarrow> phases s' = replicate (length bookmarks) Exited))
   \<and> (checkDeadLinks client bookmarks k sched = Some r \<longrightarrow>
      (\<exists>t. checkDeadLinks_pool client bookmarks k sched = Some t
            \<and> phases t = replicate (length bookmarks) Exited \<and> in_flight t = 0))
   \<and> (removeDeadLinks client bookmarks k sched = Some r' \<longrightarrow>
      (\<exists>t. removeDeadLinks_pool client bookmarks k sched = Some t
            \<and> phases t = replicate (length bookmarks) Exited \<and> in_flight t = 0))"
proof -
  have gen: "(\<forall>j. \<exists>m. pool_start report n k c (take j sched) = Some m \<and> int (in_flight m) \<le> k)
             \<and> (waited n t \<longrightarrow> phases t = replicate n Exited)"
    if "pool_start report n k c sched = Some t"
    for report :: "nat \<Rightarrow> 'c \<Rightarrow> 'c" and n c t
  proof -
    have "\<exists>m. pool_start report n k c (take j sched) = Some m \<and> int (in_flight m) \<le> k" for j
    proof -
      from pool_start_prefix [OF that, of j] obtain m
        where m: "pool_start report n k c (take j sched) = Some m" by blast
      with pool_bounded [OF m] show ?thesis by blast
    qed
    with pool_bounded [OF that] show ?thesis by blast
  qed
  have idle: "in_flight t = 0" if "phases t = replicate n Exited" for t :: "'c pool" and n
    using that by (simp add: in_flight_def)
  have c: "\<exists>t. checkDeadLinks_pool client bookmarks k sched = Some t
            \<and> phases t = replicate (length bookmarks) Exited \<and> in_flight t = 0"
    if "checkDeadLinks client bookmarks k sched = Some r"
  proof -
    from that obtain t where t: "checkDeadLinks_pool client bookmarks k sched = Some t"
      and w: "waited (length bookmarks) t"
      by (auto simp: checkDeadLinks_def split: option.splits if_splits)
    from gen [of "checkDeadLinks_report client bookmarks" "length bookmarks" "[]" t] t w
    have "phases t = replicate (length bookmarks) Exited"
      by (simp add: checkDeadLinks_pool_def)
    with t idle show ?thesis by blast
  qed
  have d: "\<exists>t. removeDeadLinks_pool client bookmarks k sched = Some t
            \<and> phases t = replicate (length bookmarks) Exited \<and> in_flight t = 0"
    if "removeDeadLinks client bookmarks k sched = Some r'"
  proof -
    from that obtain t where t: "removeDeadLinks_pool client bookmarks k sched = Some t"
      and w: "waited (length bookmarks) t"
      by (auto simp: removeDeadLinks_def split: option.splits if_splits)
    from gen [of "removeDeadLinks_report client bookmarks" "length bookmarks"
                 "replicate (length bookmarks) False" t] t w
    have "phases t = replicate (length bookmarks) Exited"
      by (simp add: removeDeadLinks_pool_def)
    with t idle show ?thesis by blast
  qed
  have a: "(checkDeadLinks_pool client bookmarks k sched = Some s \<longrightarrow>
      (\<forall>j. \<exists>m. checkDeadLinks_pool client bookmarks k (take j sched) = Some m
                \<and> int (in_flight m) \<le> k)
      \<and> (waited (length bookmarks) s \<longrightarrow> phases s = replicate (length bookmarks) Exited))
   \<and> (removeDeadLinks_pool client bookmarks k sched = Some s' \<longrightarrow>
      (\<forall>j. \<exists>m. removeDeadLinks_pool client bookmarks k (take j sched) = Some m
                \<and> int (in_flight m) \<le> k)
      \<and> (waited (length bookmarks) s' \<longrightarrow> phases s' = replicate (length bookmarks) Exited))"
    unfolding checkDeadLinks_pool_def removeDeadLinks_pool_def
    using gen [of "checkDeadLinks_report client bookmarks" "length bookmarks" "[]" s]
      gen [of "removeDeadLinks_report client bookmarks" "length bookmarks"
              "replicate (length bookmarks) False" s']
    by blast
  from a c d show ?thesis by blast
qed

theorem probes_bounded_witness:
  "(\<exists>s. checkDeadLinks_pool (test_client [''b'']) [mk ''a'' 1, mk ''b'' 3] 2
            [Add, Send, Add, Send, Step 1, Step 0, Step 0, Step 1, Step 1, Step 0] = Some s
        \<and> waited 2 s \<and> phases s = [Exited, Exited])
   \<and> (\<forall>j. \<exists>m. checkDeadLinks_pool (test_client [''b'']) [mk ''a'' 1, mk ''b'' 3] 2
            (take j [Add, Send, Add, Send, Step 1, Step 0, Step 0, Step 1, Step 1, Step 0])
              = Some m \<and> int (in_flight m) \<le> 2)
   \<and> (\<exists>s. removeDeadLinks_pool (test_client [''b'']) [mk ''a'' 1, mk ''b'' 3] 2
            [Add, Send, Add, Send, Step 1, Step 0, Step 0, Step 1, Step 1, Step 0] = Some s
        \<and> waited 2 s \<and> phases s = [Exited, Exited])
   \<and> (\<forall>j. \<exists>m. removeDeadLinks_pool (test_client [''b'']) [mk ''a'' 1, mk ''b'' 3] 2
            (take j [Add, Send, Add, Send, Step 1, Step 0, Step 0, Step 1, Step 1, Step 0])
              = Some m \<and> int (in_flight m) \<le> 2)
   \<and> checkDeadLinks (test_client [''b'']) [mk ''a'' 1, mk ''b'' 3] 2
         [Add, Send, Add, Send, Step 1, Step 0, Step 0, Step 1, Step 1, Step 0] = Some [mk ''a'' 1]
   \<and> (\<exists>t. checkDeadLinks_pool (test_client [''b'']) [mk ''a'' 1, mk ''b'' 3] 2
            [Add, Send, Add, Send, Step 1, Step 0, Step 0, Step 1, Step 1, Step 0] = Some t
        \<and> phases t = [Exited, Exited] \<and> in_flight t = 0)
   \<and> removeDeadLinks (test_client [''b'']) [mk ''a'' 1, mk ''b'' 3] 2
         [Add, Send, Add, Send, Step 1, Step 0, Step 0, Step 1, Step 1, Step 0] = Some [mk ''b'' 3]
   \<and> (\<exists>t. removeDeadLinks_pool (test_client [''b'']) [mk ''a'' 1, mk ''b'' 3] 2
            [Add, Send, Add, Send, Step 1, Step 0, Step 0, Step 1, Step 1, Step 0] = Some t
        \<and> phases t = [Exited, Exited] \<and> in_flight t = 0)
   \<and> checkDeadLinks (test_client [''b'']) [mk ''a'' 1, mk ''b'' 3] 2 [Add, Send, Add, Send]
       = None
   \<and> removeDeadLinks (test_client [''b'']) [mk ''a'' 1, mk ''b'' 3] 2 [Add, Send, Add, Send]
       = None"
proof -
  let ?bs = "[mk ''a'' 1, mk ''b'' 3]"
  let ?sched = "[Add, Send, Add, Send, Step 1, Step 0, Step 0, Step 1, Step 1, Step 0]"
  let ?c = "checkDeadLinks_pool (test_client [''b'']) ?bs 2 ?sched"
  let ?r = "removeDeadLinks_pool (test_client [''b'']) ?bs 2 ?sched"
  have "case ?c of None \<Rightarrow> False | Some s \<Rightarrow> waited 2 s" by code_simp
  then obtain s where s: "?c = Some s" and ws: "waited 2 s" by (cases ?c) auto
  have "case ?r of None \<Rightarrow> False | Some s \<Rightarrow> waited 2 s" by code_simp
  then obtain s' where s': "?r = Some s'" and ws': "waited 2 s'" by (cases ?r) auto
  have cd: "checkDeadLinks (test_client [''b'']) ?bs 2 ?sched = Some [mk ''a'' 1]"
    by code_simp
  have rd: "removeDeadLinks (test_client [''b'']) ?bs 2 ?sched = Some [mk ''b'' 3]"
    by code_simp
  have cn: "checkDeadLinks (test_client [''b'']) ?bs 2 [Add, Send, Add, Send] = None"
    by code_simp
  have rn: "removeDeadLinks (test_client [''b'']) ?bs 2 [Add, Send, Add, Send] = None"
    by code_simp
  note t = probes_bounded [of "test_client [''b'']" ?bs 2 ?sched s s' "[mk ''a'' 1]" "[mk ''b'' 3]"]
  from t s s' ws ws' have p1:
    "(\<exists>s. ?c = Some s \<and> waited 2 s \<and> phases s = [Exited, Exited])
     \<and> (\<forall>j. \<exists>m. checkDeadLinks_pool (test_client [''b'']) ?bs 2 (take j ?sched) = Some m
                 \<and> int (in_flight m) \<le> 2)
     \<and> (\<exists>s. ?r = Some s \<and> waited 2 s \<and> phases s = [Exited, Exited])
     \<and> (\<forall>j. \<exists>m. removeDeadLinks_pool (test_client [''b'']) ?bs 2 (take j ?sched) = Some m
                 \<and> int (in_flight m) \<le> 2)"
    by (simp add: eval_nat_numeral)
  from t cd have p2: "\<exists>t. ?c = Some t \<and> phases t = [Exited, Exited] \<and> in_flight t = 0"
    by (simp add: eval_nat_numeral)
  from t rd have p3: "\<exists>t. ?r = Some t \<and> phases t = [Exited, Exited] \<and> in_flight t = 0"
    by (simp add: eval_nat_numeral)
  from p1 p2 p3 cd rd cn rn show ?thesis by (intro conjI) blast+
qed

lemma keep_inv_init:
  "keep_inv client bookmarks (pool_init (replicate (length bookmarks) False))"
  by (simp add: keep_inv_def pool_init_def)

lemma keep_inv_step:
  assumes "keep_inv client bookmarks s"
    and "pool_step (removeDeadLinks_report client bookmarks) (length bookmarks) cap s e = Some s'"
  shows "keep_inv client bookmarks s'"
proof (cases e)
  case Add
  with assms show ?thesis
    by (auto simp: pool_step_def keep_inv_def split: if_splits)
next
  case Send
  with assms show ?thesis
    by (auto simp: pool_step_def keep_inv_def nth_append split: if_splits)
next
  case (Step i)
  with assms(2) have i: "i < length (phases s)"
    by (auto simp: pool_step_def split: if_splits)
  show ?thesis
  proof (cases "phases s ! i")
    case Probing
    with assms(2) Step i have s': "s' = s\<lparr>phases := (phases s)[i := Reported],
        collector := (if urlHealthy client (URL (bookmarks ! i))
                      then (collector s)[i := True] else collector s),
        progress := progress s + 1\<rparr>"
      by (simp add: pool_step_def removeDeadLinks_report_def)
    have "collector s' ! j \<longleftrightarrow>
            (j < length (phases s') \<and> phases s' ! j \<noteq> Probing
             \<and> urlHealthy client (URL (bookmarks ! j)))"
      if j: "j < length bookmarks" for j
    proof (cases "j = i")
      case True
      with assms(1) j Probing have "\<not> collector s ! i" by (simp add: keep_inv_def)
      with True i j assms(1) show ?thesis by (simp add: s' keep_inv_def)
    next
      case False
      with assms(1) j show ?thesis by (simp add: s' keep_inv_def)
    qed
    with assms(1) show ?thesis by (simp add: keep_inv_def s')
  next
    case Reported
    with assms Step i show ?thesis
      by (auto simp: pool_step_def keep_inv_def nth_list_update split: if_splits)
  next
    case Released
    with assms Step i show ?thesis
      by (auto simp: pool_step_def keep_inv_def nth_list_update split: if_splits)
  next
    case Exited
    with assms Step i show ?thesis by (simp add: pool_step_def)
  qed
qed

lemma keep_loop_zip:
  "length keep = length bookmarks - i \<Longrightarrow>
   keep_loop keep bookmarks i acc = acc @ map snd (filter fst (zip keep (drop i bookmarks)))"
proof (induction keep arbitrary: i acc)
  case Nil
  then show ?case by simp
next
  case (Cons k keep)
  from Cons.prems have i: "i < length bookmarks" by simp
  then have d: "drop i bookmarks = bookmarks ! i # drop (Suc i) bookmarks"
    by (simp add: Cons_nth_drop_Suc)
  from Cons.prems have "length keep = length bookmarks - Suc i" by simp
  from Cons.IH [OF this] show ?case by (simp add: d)
qed

lemma zip_map_filter: "map snd (filter fst (zip (map f xs) xs)) = filter f xs"
  by (induction xs) auto

lemma removeDeadLinks_keep:
  assumes ps: "removeDeadLinks_pool client bookmarks k sched = Some s"
    and w: "waited (length bookmarks) s"
  shows "collector s = map (\<lambda>bm. urlHealthy client (URL bm)) bookmarks"
proof -
  from ps have start: "pool_start (removeDeadLinks_report client bookmarks) (length bookmarks) k
                  (replicate (length bookmarks) False) sched = Some s"
    by (simp add: removeDeadLinks_pool_def)
  then have run: "pool_run (removeDeadLinks_report client bookmarks) (length bookmarks) (nat k)
                  (pool_init (replicate (length bookmarks) False)) sched = Some s"
    by (auto simp: pool_start_def split: if_splits)
  have ki: "keep_inv client bookmarks s"
    by (rule pool_run_invariant [OF run, of "keep_inv client bookmarks"])
       (auto intro: keep_inv_init keep_inv_step)
  from pool_start_inv [OF start] have "pool_inv (nat k) s" by simp
  from waited_all_exited [OF this w] have ph: "phases s = replicate (length bookmarks) Exited" .
  show ?thesis
    using ki ph by (auto simp: keep_inv_def list_eq_iff_nth_eq)
qed

lemma removeDeadLinks_result:
  assumes "removeDeadLinks client bookmarks k sched = Some r"
  shows "r = filter (\<lambda>bm. urlHealthy client (URL bm)) bookmarks"
proof -
  from assms obtain s where ps: "removeDeadLinks_pool client bookmarks k sched = Some s"
    and w: "waited (length bookmarks) s"
    and r: "r = keep_loop (collector s) bookmarks 0 []"
    by (auto simp: removeDeadLinks_def split: option.splits if_splits)
  from removeDeadLinks_keep [OF ps w]
  have c: "collector s = map (\<lambda>bm. urlHealthy client (URL bm)) bookmarks" .
  then have "length (collector s) = length bookmarks - 0" by simp
  from keep_loop_zip [OF this, of "[]"] r c show ?thesis
    by (simp add: zip_map_filter)
qed


lemma sequential_round:
  assumes "idle i s" and "i < n" and "1 \<le> cap"
  shows "\<exists>t. pool_run report n cap s [Add, Send, Step i, Step i, Step i] = Some t \<and> idle (Suc i) t"
proof -
  have "(replicate i Exited @ [Probing])[i := Exited] = replicate i Exited @ [Exited]"
    using list_update_length [of "replicate i Exited" Probing "[]" Exited] by simp
  then have "(replicate i Exited @ [Probing])[i := Exited] = replicate (Suc i) Exited"
    by (simp only: replicate_append_same replicate_Suc)
  with assms show ?thesis
    by (simp add: idle_def pool_step_def nth_append del: replicate_Suc)
qed

lemma sequential_rounds:
  assumes "idle i s" and "i \<le> n" and "1 \<le> cap"
  shows "\<exists>t. pool_run report n cap s
               (concat (map (\<lambda>j. [Add, Send, Step j, Step j, Step j]) [i..<n])) = Some t
             \<and> idle n t"
  using assms(1,2)
proof (induction "n - i" arbitrary: i s)
  case 0
  then show ?case by simp
next
  case (Suc d)
  then have lt: "i < n" and d: "d = n - Suc i" and le: "Suc i \<le> n" by simp_all
  from sequential_round [OF Suc.prems(1) lt assms(3), of report] obtain m
    where m: "pool_run report n cap s [Add, Send, Step i, Step i, Step i] = Some m"
      and im: "idle (Suc i) m" by blast
  from Suc.hyps(1) [OF d im le] obtain t
    where t: "pool_run report n cap m
                (concat (map (\<lambda>j. [Add, Send, Step j, Step j, Step j]) [Suc i..<n])) = Some t"
      and it: "idle n t" by blast
  have "concat (map (\<lambda>j. [Add, Send, Step j, Step j, Step j]) [i..<n])
          = [Add, Send, Step i, Step i, Step i]
            @ concat (map (\<lambda>j. [Add, Send, Step j, Step j, Step j]) [Suc i..<n])"
    using lt by (simp add: upt_conv_Cons)
  with m t it show ?case
    by (simp only: pool_run_append) simp
qed

lemma sequential_schedule_returns:
  assumes "1 \<le> k"
  shows "\<exists>t. pool_start report n k c (sequential_schedule n) = Some t \<and> waited n t"
proof -
  have "idle 0 (pool_init c)" by (simp add: idle_def pool_init_def)
  moreover from assms have "1 \<le> nat k" by simp
  ultimately obtain t
    where "pool_run report n (nat k) (pool_init c) (sequential_schedule n) = Some t" and "idle n t"
    using sequential_rounds [of 0 "pool_init c" n "nat k" report]
    unfolding sequential_schedule_def by blast
  with assms show ?thesis
    by (auto simp: pool_start_def idle_def waited_def)
qed

lemma removeDeadLinks_sequential:
  assumes k: "1 \<le> k"
  shows "removeDeadLinks client bookmarks k (sequential_schedule (length bookmarks))
           = Some (filter (\<lambda>bm. urlHealthy client (URL bm)) bookmarks)"
proof -
  from sequential_schedule_returns [OF k, of "removeDeadLinks_report client bookmarks"
      "length bookmarks" "replicate (length bookmarks) False"] obtain t
    where "removeDeadLinks_pool client bookmarks k (sequential_schedule (length bookmarks)) = Some t"
      and "waited (length bookmarks) t"
    unfolding removeDeadLinks_pool_def by blast
  then have "removeDeadLinks client bookmarks k (sequential_schedule (length bookmarks))
               = Some (keep_loop (collector t) bookmarks 0 [])"
    by (simp add: removeDeadLinks_def)
  with removeDeadLinks_result [OF this] show ?thesis by simp
qed

lemma checkDeadLinks_sequential:
  assumes k: "1 \<le> k"
  shows "\<exists>dead. checkDeadLinks client bookmarks k (sequential_schedule (length bookmarks))
                  = Some dead"
proof -
  from sequential_schedule_returns [OF k, of "checkDeadLinks_report client bookmarks"
      "length bookmarks" "[]"] obtain t
    where "checkDeadLinks_pool client bookmarks k (sequential_schedule (length bookmarks)) = Some t"
      and "waited (length bookmarks) t"
    unfolding checkDeadLinks_pool_def by blast
  then show ?thesis by (simp add: checkDeadLinks_def)
qed

text \<open>
  C7. For every record list, the clean-mode prober returns, whenever it returns, the
  records whose URL is healthy, in input order, whatever the schedule: after the wait
  the slot of \<^verbatim>\<open>keep\<close> at every position holds the outcome of the probe of the record at
  that position. With a concurrency of at least one it does return under the schedule
  that runs the goroutines one after the other.
\<close>

theorem removeDeadLinks_order:
  "(removeDeadLinks client bookmarks k sched = Some r \<longrightarrow>
      r = filter (\<lambda>bm. urlHealthy client (URL bm)) bookmarks)
   \<and> (removeDeadLinks_pool client bookmarks k sched = Some s \<and> waited (length bookmarks) s \<longrightarrow>
      collector s = map (\<lambda>bm. urlHealthy client (URL bm)) bookmarks)
   \<and> (1 \<le> k \<longrightarrow>
      removeDeadLinks client bookmarks k (sequential_schedule (length bookmarks))
        = Some (filter (\<lambda>bm. urlHealthy client (URL bm)) bookmarks))"
proof (intro conjI impI)
  assume "removeDeadLinks client bookmarks k sched = Some r"
  then show "r = filter (\<lambda>bm. urlHealthy client (URL bm)) bookmarks"
    by (rule removeDeadLinks_result)
next
  assume "removeDeadLinks_pool client bookmarks k sched = Some s \<and> waited (length bookmarks) s"
  then show "collector s = map (\<lambda>bm. urlHealthy client (URL bm)) bookmarks"
    using removeDeadLinks_keep by blast
next
  assume "1 \<le> k"
  then show "removeDeadLinks client bookmarks k (sequential_schedule (length bookmarks))
          = Some (filter (\<lambda>bm. urlHealthy client (URL bm)) bookmarks)"
    by (rule removeDeadLinks_sequential)
qed

theorem removeDeadLinks_order_witness:
  "removeDeadLinks (test_client [''b'']) [mk ''a'' 1, mk ''b'' 3] 2
       [Add, Send, Add, Send, Step 1, Step 0, Step 0, Step 1, Step 1, Step 0]
     = Some [mk ''b'' 3]
   \<and> [mk ''b'' 3]
       = filter (\<lambda>bm. urlHealthy (test_client [''b'']) (URL bm)) [mk ''a'' 1, mk ''b'' 3]
   \<and> (\<exists>s. removeDeadLinks_pool (test_client [''b'']) [mk ''a'' 1, mk ''b'' 3] 2
             [Add, Send, Add, Send, Step 1, Step 0, Step 0, Step 1, Step 1, Step 0] = Some s
          \<and> waited 2 s \<and> collector s = [False, True])
   \<and> removeDeadLinks (test_client [''b'']) [mk ''a'' 1, mk ''b'' 3] 2 (sequential_schedule 2)
       = Some [mk ''b'' 3]"
proof -
  let ?bs = "[mk ''a'' 1, mk ''b'' 3]"
  let ?sched = "[Add, Send, Add, Send, Step 1, Step 0, Step 0, Step 1, Step 1, Step 0]"
  let ?r = "removeDeadLinks_pool (test_client [''b'']) ?bs 2 ?sched"
  have rd: "removeDeadLinks (test_client [''b'']) ?bs 2 ?sched = Some [mk ''b'' 3]"
    by code_simp
  have "case ?r of None \<Rightarrow> False | Some s \<Rightarrow> waited (length ?bs) s" by code_simp
  then obtain s where s: "?r = Some s" and ws: "waited (length ?bs) s" by (cases ?r) auto
  have ha: "\<not> urlHealthy (test_client [''b'']) ''a''" by code_simp
  have hb: "urlHealthy (test_client [''b'']) ''b''" by code_simp
  have flt: "filter (\<lambda>bm. urlHealthy (test_client [''b'']) (URL bm)) ?bs = [mk ''b'' 3]"
    and mp: "map (\<lambda>bm. urlHealthy (test_client [''b'']) (URL bm)) ?bs = [False, True]"
    using ha hb by (simp_all add: test_codec_simps)
  note t = removeDeadLinks_order [of "test_client [''b'']" ?bs 2 ?sched "[mk ''b'' 3]" s]
  from t s ws have "collector s = map (\<lambda>bm. urlHealthy (test_client [''b'']) (URL bm)) ?bs"
    by blast
  with mp have c2: "collector s = [False, True]" by simp
  from t have "removeDeadLinks (test_client [''b'']) ?bs 2 (sequential_schedule (length ?bs))
                 = Some (filter (\<lambda>bm. urlHealthy (test_client [''b'']) (URL bm)) ?bs)"
    by simp
  then have c3: "removeDeadLinks (test_client [''b'']) ?bs 2 (sequential_schedule 2)
                 = Some [mk ''b'' 3]"
    unfolding flt by (simp add: eval_nat_numeral)
  from ws have ws2: "waited 2 s" by (simp add: eval_nat_numeral)
  from rd flt s ws2 c2 c3 show ?thesis by simp
qed

section \<open>Properties of the store commands\<close>

lemma reliable_fails: "reliable st \<Longrightarrow> \<not> fails st"
  by (auto simp: reliable_def fails_def split: list.splits)

lemma reliable_advance: "reliable st \<Longrightarrow> reliable (advance st)"
  by (cases "faults st") (auto simp: reliable_def advance_def)

lemma reliable_update [simp]:
  "reliable (st\<lparr>zsets := z\<rparr>) = reliable st" "reliable (st\<lparr>sets := x\<rparr>) = reliable st"
  by (simp_all add: reliable_def)

lemma advance_data [simp]: "zsets (advance st) = zsets st" "sets (advance st) = sets st"
  by (simp_all add: advance_def)

text \<open>Reads leave the data alone, whether they fail or not.\<close>

lemma ZRangeWithScores_frame:
  "zsets (snd (ZRangeWithScores key st)) = zsets st \<and> sets (snd (ZRangeWithScores key st)) = sets st"
  by (simp add: ZRangeWithScores_def)

lemma getFromZSet_frame:
  "zsets (snd (getFromZSet env key st)) = zsets st \<and> sets (snd (getFromZSet env key st)) = sets st"
  using ZRangeWithScores_frame [of key st]
  by (auto simp: getFromZSet_def split: prod.splits sum.splits)

lemma getAllBookmarks_frame:
  "zsets (snd (getAllBookmarks env st)) = zsets st \<and> sets (snd (getAllBookmarks env st)) = sets st"
  using ZRangeWithScores_frame [of RedisBookmarksKey st]
  by (auto simp: getAllBookmarks_def split: prod.splits sum.splits)

text \<open>
  C10. \<^verbatim>\<open>check\<close> leaves every sorted set and every set of the store as it found them,
  for every store, every outcome of the read and every schedule of the prober; so do
  \<^verbatim>\<open>list\<close>, \<^verbatim>\<open>search\<close>, \<^verbatim>\<open>dead show\<close> and \<^verbatim>\<open>import\<close>. The commands that write are
  \<^verbatim>\<open>clean\<close>, \<^verbatim>\<open>dead purge\<close> and \<^verbatim>\<open>dead revive\<close>. With a concurrency of at least one,
  \<^verbatim>\<open>check\<close> does return under the schedule that runs the goroutines one after the
  other.
\<close>

theorem check_read_only:
  fixes env :: "('s::linorder) codec"
  shows "(checkBookmarks env client k sched st = Some (err, rep, st') \<longrightarrow>
            zsets st' = zsets st \<and> sets st' = sets st)
       \<and> zsets (snd (snd (listBookmarks env includeDead st))) = zsets st
       \<and> sets (snd (snd (listBookmarks env includeDead st))) = sets st
       \<and> zsets (snd (snd (searchBookmarksCmd env lib q tags includeDead limit st))) = zsets st
       \<and> sets (snd (snd (searchBookmarksCmd env lib q tags includeDead limit st))) = sets st
       \<and> zsets (snd (snd (deadShowCmd env st))) = zsets st
       \<and> sets (snd (snd (deadShowCmd env st))) = sets st
       \<and> snd (importBookmarks st) = st
       \<and> (fst (getAllBookmarks env st) = Inr bookmarks \<and> 1 \<le> k \<longrightarrow>
            (\<exists>r. checkBookmarks env client k (sequential_schedule (length bookmarks)) st
                    = Some r))"
proof -
  have r: "\<exists>r. checkBookmarks env client k (sequential_schedule (length bookmarks)) st = Some r"
    if "fst (getAllBookmarks env st) = Inr bookmarks" and "1 \<le> k"
  proof -
    from that(1) obtain st1 where "getAllBookmarks env st = (Inr bookmarks, st1)"
      by (cases "getAllBookmarks env st") simp
    with checkDeadLinks_sequential [OF that(2), of client bookmarks] show ?thesis
      by (auto simp: checkBookmarks_def Let_def)
  qed
  have c: "zsets st' = zsets st \<and> sets st' = sets st"
    if "checkBookmarks env client k sched st = Some (err, rep, st')"
    using that getAllBookmarks_frame [of env st]
    by (auto simp: checkBookmarks_def Let_def split: prod.splits sum.splits if_splits option.splits)
  have l: "zsets (snd (snd (listBookmarks env includeDead st))) = zsets st
         \<and> sets (snd (snd (listBookmarks env includeDead st))) = sets st"
    using getFromZSet_frame [of env RedisBookmarksActiveKey st]
      getFromZSet_frame [of env RedisBookmarksDeadKey "snd (getFromZSet env RedisBookmarksActiveKey st)"]
    by (auto simp: listBookmarks_def split: prod.splits sum.splits)
  have s: "zsets (snd (snd (searchBookmarksCmd env lib q tags includeDead limit st))) = zsets st
         \<and> sets (snd (snd (searchBookmarksCmd env lib q tags includeDead limit st))) = sets st"
    using getFromZSet_frame [of env RedisBookmarksActiveKey st]
      getFromZSet_frame [of env RedisBookmarksDeadKey "snd (getFromZSet env RedisBookmarksActiveKey st)"]
    by (auto simp: searchBookmarksCmd_def Let_def split: prod.splits sum.splits)
  have d: "zsets (snd (snd (deadShowCmd env st))) = zsets st
         \<and> sets (snd (snd (deadShowCmd env st))) = sets st"
    using getFromZSet_frame [of env RedisBookmarksDeadKey st]
    by (auto simp: deadShowCmd_def split: prod.splits sum.splits)
  from c l s d r show ?thesis by (simp add: importBookmarks_def)
qed

theorem check_read_only_witness:
  "\<exists>rep st'. checkBookmarks test_codec (test_client [''b'']) 1 (sequential_schedule 3)
                 (test_store [(''+:a'', 1), (''++:a'', 2), (''+++:b'', 3)] [] {} [False])
               = Some (None, rep, st')
      \<and> zsets st' = zsets (test_store [(''+:a'', 1), (''++:a'', 2), (''+++:b'', 3)] [] {} [False])
      \<and> sets st' = sets (test_store [(''+:a'', 1), (''++:a'', 2), (''+++:b'', 3)] [] {} [False])"
proof -
  let ?st = "test_store [(''+:a'', 1), (''++:a'', 2), (''+++:b'', 3)] [] {} [False]"
  have cd: "checkDeadLinks (test_client [''b'']) [mk ''a'' 1, mk ''a'' 2, mk ''b'' 3] 1
              (sequential_schedule 3) = Some [mk ''a'' 1, mk ''a'' 2]"
    by code_simp
  have "\<exists>rep st'. checkBookmarks test_codec (test_client [''b'']) 1 (sequential_schedule 3) ?st
               = Some (None, rep, st')"
    by (simp add: checkBookmarks_def Let_def cd lit_eval)
  then obtain rep st' where run: "checkBookmarks test_codec (test_client [''b'']) 1
        (sequential_schedule 3) ?st = Some (None, rep, st')" by blast
  from check_read_only [of test_codec "test_client [''b'']" 1 "sequential_schedule 3" ?st
      None rep st'] run
  have "zsets st' = zsets ?st \<and> sets st' = sets ?st" by blast
  with run show ?thesis by blast
qed

lemma reliable_cmds:
  assumes "reliable st"
  shows "Del key st = (None, advance (st\<lparr>zsets := (zsets st)(key := []),
                                         sets := (sets st)(key := {})\<rparr>))"
    and "ZAdd key score member st
           = (None, advance (st\<lparr>zsets := (zsets st)(key := zadd_rows member score (zsets st key))\<rparr>))"
    and "SAdd key member st
           = (None, advance (st\<lparr>sets := (sets st)(key := insert member (sets st key))\<rparr>))"
    and "SRem key member st
           = (None, advance (st\<lparr>sets := (sets st)(key := sets st key - {member})\<rparr>))"
  using reliable_fails [OF assms] by (simp_all add: Del_def ZAdd_def SAdd_def SRem_def)

lemma reliable_read:
  fixes st :: "('s::linorder) redis"
  assumes "reliable st"
  shows "ZRangeWithScores key st
           = (Inr (sort_key (\<lambda>z. (snd z, fst z)) (zsets st key)), advance st)"
  using reliable_fails [OF assms] by (simp add: ZRangeWithScores_def)

lemma reliable_cmds_keep:
  assumes "reliable st"
  shows "reliable (snd (Del key st))" "reliable (snd (ZAdd key score member st))"
    "reliable (snd (SAdd key member st))" "reliable (snd (SRem key member st))"
  using reliable_advance [of "st\<lparr>zsets := z\<rparr>" for z] reliable_advance [of "st\<lparr>sets := x\<rparr>" for x]
    reliable_advance [of "st\<lparr>zsets := z, sets := x\<rparr>" for z x] assms
  by (simp_all add: reliable_cmds [OF assms])

lemma write_loop_reliable:
  assumes "reliable st"
  shows "reliable (write_loop env zkey skey bs st)
       \<and> zsets (write_loop env zkey skey bs st) = (zsets st)(zkey := zrows env bs (zsets st zkey))
       \<and> sets (write_loop env zkey skey bs st) = (sets st)(skey := sets st skey \<union> set (map URL bs))"
  using assms
proof (induction bs arbitrary: st)
  case Nil
  then show ?case by simp
next
  case (Cons bm rest)
  let ?st2 = "snd (SAdd skey (URL bm)
                (snd (ZAdd zkey (float64 env (CreatedAt bm)) (marshal env bm) st)))"
  have r2: "reliable ?st2"
    by (intro reliable_cmds_keep Cons.prems)
  have z2: "zsets ?st2
      = (zsets st)(zkey := zadd_rows (marshal env bm) (float64 env (CreatedAt bm)) (zsets st zkey))"
    and s2: "sets ?st2 = (sets st)(skey := insert (URL bm) (sets st skey))"
    using Cons.prems by (simp_all add: reliable_cmds reliable_advance)
  have step: "write_loop env zkey skey (bm # rest) st = write_loop env zkey skey rest ?st2"
    by (simp add: Let_def)
  have "insert (URL bm) (sets st skey) \<union> set (map URL rest)
          = sets st skey \<union> set (map URL (bm # rest))" by auto
  with Cons.IH [OF r2] show ?case
    unfolding step z2 s2 by (auto simp: fun_eq_iff)
qed


lemma write_loop_zsets:
  "reliable st \<Longrightarrow>
   zsets (write_loop env zkey skey bs st) = (zsets st)(zkey := zrows env bs (zsets st zkey))"
  and write_loop_sets:
  "reliable st \<Longrightarrow>
   sets (write_loop env zkey skey bs st) = (sets st)(skey := sets st skey \<union> set (map URL bs))"
  and write_loop_rel: "reliable st \<Longrightarrow> reliable (write_loop env zkey skey bs st)"
  using write_loop_reliable [of st env zkey skey bs] by simp_all

lemma snd_cmds:
  assumes "reliable st"
  shows "snd (Del key st) = advance (st\<lparr>zsets := (zsets st)(key := []),
                                          sets := (sets st)(key := {})\<rparr>)"
    and "snd (ZAdd key score member st)
           = advance (st\<lparr>zsets := (zsets st)(key := zadd_rows member score (zsets st key))\<rparr>)"
    and "snd (SAdd key member st)
           = advance (st\<lparr>sets := (sets st)(key := insert member (sets st key))\<rparr>)"
    and "snd (SRem key member st)
           = advance (st\<lparr>sets := (sets st)(key := sets st key - {member})\<rparr>)"
  by (simp_all add: reliable_cmds [OF assms])

lemma activeURL_loop_iff:
  "activeURL_loop f bs u \<longleftrightarrow> f u \<or> u \<in> set (map URL bs)"
  by (induction bs arbitrary: f) auto

lemma dead_loop_filter:
  "dead_loop f bs acc = acc @ filter (\<lambda>bm. \<not> f (URL bm)) bs"
  by (induction bs arbitrary: acc) auto

lemma getAllBookmarks_reliable:
  fixes st :: "('s::linorder) redis"
  assumes "reliable st"
  shows "getAllBookmarks env st
           = (Inr (scan_loop env (sort_key (\<lambda>z. (snd z, fst z)) (zsets st RedisBookmarksKey)) []),
              advance st)"
  by (simp add: getAllBookmarks_def reliable_read [OF assms])

lemma getFromZSet_reliable:
  fixes st :: "('s::linorder) redis"
  assumes "reliable st"
  shows "getFromZSet env zkey st
           = (Inr (scan_loop env (sort_key (\<lambda>z. (snd z, fst z)) (zsets st zkey)) []),
              advance st)"
  by (simp add: getFromZSet_def reliable_read [OF assms])

lemma save_reliable:
  fixes st :: "('s::linorder) redis" and active :: "Bookmark list"
  assumes rel: "reliable st"
    and all: "fst (getAllBookmarks env st) = Inr all"
  defines "dead \<equiv> filter (\<lambda>bm. URL bm \<notin> set (map URL active)) all"
  shows "\<exists>st'. saveBookmarksClassified env active st = (None, st') \<and> reliable st'
     \<and> zsets st' RedisBookmarksActiveKey = zrows env active []
     \<and> zsets st' RedisBookmarksDeadKey = zrows env dead []
     \<and> zsets st' RedisBookmarksKey = zrows env active []
     \<and> sets st' RedisURLSetActive = set (map URL active)
     \<and> sets st' RedisURLSetDead = set (map URL dead)
     \<and> sets st' RedisURLSetKey = set (map URL active)"
proof -
  from all have ga: "getAllBookmarks env st = (Inr all, advance st)"
    by (simp add: getAllBookmarks_reliable [OF rel])
  have d: "dead_loop (activeURL_loop (\<lambda>_. False) active) all [] = dead"
    by (simp add: dead_loop_filter activeURL_loop_iff dead_def del: set_map)
  show ?thesis
    unfolding saveBookmarksClassified_def ga
    using rel
    by (simp add: Let_def d snd_cmds write_loop_zsets write_loop_sets write_loop_rel
        reliable_advance keys_ne del: set_map)
qed

lemma revive_loop_hit:
  assumes "reliable st" and "find (\<lambda>bm. URL bm = url) dead = Some bm"
  shows "\<exists>st'. revive_loop env url dead st = (None, st') \<and> reliable st'
     \<and> zsets st' = (zsets st)
          (RedisBookmarksActiveKey :=
             zadd_rows (marshal env bm) (float64 env (CreatedAt bm)) (zsets st RedisBookmarksActiveKey),
           RedisBookmarksKey :=
             zadd_rows (marshal env bm) (float64 env (CreatedAt bm)) (zsets st RedisBookmarksKey))
     \<and> sets st' = (sets st)
          (RedisURLSetActive := insert url (sets st RedisURLSetActive),
           RedisURLSetDead := sets st RedisURLSetDead - {url})"
  using assms(2)
proof (induction dead)
  case Nil
  then show ?case by simp
next
  case (Cons b rest)
  show ?case
  proof (cases "URL b = url")
    case True
    with Cons.prems have "b = bm" by simp
    with True assms(1) show ?thesis
      by (auto simp: Let_def snd_cmds reliable_advance keys_ne fun_eq_iff)
  next
    case False
    with Cons show ?thesis by simp
  qed
qed

lemma revive_loop_miss:
  "find (\<lambda>bm. URL bm = url) dead = None \<Longrightarrow>
   revive_loop env url dead st = (Some (Exit ''url not found in dead list'' 1), st)"
  by (induction dead) (auto split: if_splits)

text \<open>
  C6, as stated, fails on a store that does not answer every command. The record with
  the URL \<^verbatim>\<open>a\<close> is in the dead index and \<^verbatim>\<open>a\<close> is in the dead membership set. When the
  read of the dead index fails, \<^verbatim>\<open>revive\<close> drops the error, scans no record and fails
  with \<^verbatim>\<open>url not found in dead list\<close>. When the read succeeds and the four writes fail,
  \<^verbatim>\<open>revive\<close> reports success and has written nothing.
\<close>

theorem revive_correct_counterexample:
  "zsets (test_store [] [(''+:a'', 1)] {''a''} [True]) RedisBookmarksDeadKey = [(''+:a'', 1)]
   \<and> unmarshal test_codec ''+:a'' = Some (mk ''a'' 1)
   \<and> URL (mk ''a'' 1) = ''a''
   \<and> fst (deadReviveCmd test_codec [''a''] (test_store [] [(''+:a'', 1)] {''a''} [True]))
       = Some (Exit ''url not found in dead list'' 1)
   \<and> fst (getFromZSet test_codec RedisBookmarksDeadKey
            (test_store [] [(''+:a'', 1)] {''a''} [False, True, True, True, True]))
       = Inr [mk ''a'' 1]
   \<and> fst (deadReviveCmd test_codec [''a'']
            (test_store [] [(''+:a'', 1)] {''a''} [False, True, True, True, True])) = None
   \<and> zsets (snd (deadReviveCmd test_codec [''a'']
            (test_store [] [(''+:a'', 1)] {''a''} [False, True, True, True, True])))
         RedisBookmarksActiveKey = []
   \<and> zsets (snd (deadReviveCmd test_codec [''a'']
            (test_store [] [(''+:a'', 1)] {''a''} [False, True, True, True, True])))
         RedisBookmarksKey = []
   \<and> sets (snd (deadReviveCmd test_codec [''a'']
            (test_store [] [(''+:a'', 1)] {''a''} [False, True, True, True, True])))
         RedisURLSetActive = {}
   \<and> sets (snd (deadReviveCmd test_codec [''a'']
            (test_store [] [(''+:a'', 1)] {''a''} [False, True, True, True, True])))
         RedisURLSetDead = {''a''}"
  by (simp add: deadReviveCmd_def Let_def lit_eval)

text \<open>
  C6, as the code has it. On a store that answers every command: when the scan of the
  dead index finds a record with the URL, \<^verbatim>\<open>revive\<close> adds the first such record to the
  active index and to the combined index, adds the URL to the active membership set,
  removes it from the dead membership set, changes nothing else (the row in the dead
  index stays), and reports success; when the scan finds no record with the URL, it
  changes nothing and fails with \<^verbatim>\<open>url not found in dead list\<close>.
\<close>

theorem revive_correct:
  fixes env :: "('s::linorder) codec"
  assumes "reliable st" and "fst (getFromZSet env RedisBookmarksDeadKey st) = Inr dead"
  shows "(\<forall>bm. find (\<lambda>bm. URL bm = url) dead = Some bm \<longrightarrow>
            (\<exists>st'. deadReviveCmd env (url # rest) st = (None, st')
               \<and> zsets st' = (zsets st)
                    (RedisBookmarksActiveKey :=
                       zadd_rows (marshal env bm) (float64 env (CreatedAt bm))
                         (zsets st RedisBookmarksActiveKey),
                     RedisBookmarksKey :=
                       zadd_rows (marshal env bm) (float64 env (CreatedAt bm))
                         (zsets st RedisBookmarksKey))
               \<and> sets st' = (sets st)
                    (RedisURLSetActive := insert url (sets st RedisURLSetActive),
                     RedisURLSetDead := sets st RedisURLSetDead - {url})
               \<and> zsets st' RedisBookmarksDeadKey = zsets st RedisBookmarksDeadKey))
       \<and> (find (\<lambda>bm. URL bm = url) dead = None \<longrightarrow>
            (\<exists>st'. deadReviveCmd env (url # rest) st
                      = (Some (Exit ''url not found in dead list'' 1), st')
               \<and> zsets st' = zsets st \<and> sets st' = sets st))"
proof -
  from assms have g: "getFromZSet env RedisBookmarksDeadKey st = (Inr dead, advance st)"
    by (simp add: getFromZSet_reliable)
  have r: "reliable (advance st)" by (rule reliable_advance [OF assms(1)])
  have hit: "\<exists>st'. deadReviveCmd env (url # rest) st = (None, st')
               \<and> zsets st' = (zsets st)
                    (RedisBookmarksActiveKey :=
                       zadd_rows (marshal env bm) (float64 env (CreatedAt bm))
                         (zsets st RedisBookmarksActiveKey),
                     RedisBookmarksKey :=
                       zadd_rows (marshal env bm) (float64 env (CreatedAt bm))
                         (zsets st RedisBookmarksKey))
               \<and> sets st' = (sets st)
                    (RedisURLSetActive := insert url (sets st RedisURLSetActive),
                     RedisURLSetDead := sets st RedisURLSetDead - {url})
               \<and> zsets st' RedisBookmarksDeadKey = zsets st RedisBookmarksDeadKey"
    if f: "find (\<lambda>bm. URL bm = url) dead = Some bm" for bm
    using revive_loop_hit [OF r f, of env]
    by (auto simp: deadReviveCmd_def g keys_ne)
  have miss: "\<exists>st'. deadReviveCmd env (url # rest) st
                      = (Some (Exit ''url not found in dead list'' 1), st')
               \<and> zsets st' = zsets st \<and> sets st' = sets st"
    if f: "find (\<lambda>bm. URL bm = url) dead = None"
    by (simp add: deadReviveCmd_def g revive_loop_miss [OF f])
  from hit miss show ?thesis by blast
qed

theorem revive_correct_witness:
  "reliable (test_store [] [(''+:a'', 1)] {''a''} [])
   \<and> fst (getFromZSet test_codec RedisBookmarksDeadKey (test_store [] [(''+:a'', 1)] {''a''} []))
       = Inr [mk ''a'' 1]
   \<and> find (\<lambda>bm. URL bm = ''a'') [mk ''a'' 1] = Some (mk ''a'' 1)
   \<and> (\<exists>st'. deadReviveCmd test_codec [''a''] (test_store [] [(''+:a'', 1)] {''a''} [])
               = (None, st')
          \<and> zsets st' RedisBookmarksActiveKey = [(''+:a'', 1)]
          \<and> zsets st' RedisBookmarksKey = [(''+:a'', 1)]
          \<and> sets st' RedisURLSetActive = {''a''}
          \<and> sets st' RedisURLSetDead = {}
          \<and> zsets st' RedisBookmarksDeadKey = [(''+:a'', 1)])
   \<and> find (\<lambda>bm. URL bm = ''b'') [mk ''a'' 1] = None
   \<and> (\<exists>st'. deadReviveCmd test_codec [''b''] (test_store [] [(''+:a'', 1)] {''a''} [])
               = (Some (Exit ''url not found in dead list'' 1), st')
          \<and> zsets st' = zsets (test_store [] [(''+:a'', 1)] {''a''} [])
          \<and> sets st' = sets (test_store [] [(''+:a'', 1)] {''a''} []))"
proof -
  let ?st = "test_store [] [(''+:a'', 1)] {''a''} []"
  have rel: "reliable ?st" by (rule test_store_reliable)
  have read: "fst (getFromZSet test_codec RedisBookmarksDeadKey ?st) = Inr [mk ''a'' 1]"
    by (simp add: lit_eval)
  have hit: "find (\<lambda>bm. URL bm = ''a'') [mk ''a'' 1] = Some (mk ''a'' 1)"
    and miss: "find (\<lambda>bm. URL bm = ''b'') [mk ''a'' 1] = None"
    by (simp_all add: test_codec_simps)
  from revive_correct [OF rel read, of "''a''" "[]"] hit
  obtain st1 where r1: "deadReviveCmd test_codec [''a''] ?st = (None, st1)"
    and "zsets st1 = (zsets ?st)
            (RedisBookmarksActiveKey :=
               zadd_rows (marshal test_codec (mk ''a'' 1)) (float64 test_codec (CreatedAt (mk ''a'' 1)))
                 (zsets ?st RedisBookmarksActiveKey),
             RedisBookmarksKey :=
               zadd_rows (marshal test_codec (mk ''a'' 1)) (float64 test_codec (CreatedAt (mk ''a'' 1)))
                 (zsets ?st RedisBookmarksKey))"
    and "sets st1 = (sets ?st)
            (RedisURLSetActive := insert ''a'' (sets ?st RedisURLSetActive),
             RedisURLSetDead := sets ?st RedisURLSetDead - {''a''})"
    by blast
  then have "zsets st1 RedisBookmarksActiveKey = [(''+:a'', 1)]"
    and "zsets st1 RedisBookmarksKey = [(''+:a'', 1)]"
    and "sets st1 RedisURLSetActive = {''a''}"
    and "sets st1 RedisURLSetDead = {}"
    and "zsets st1 RedisBookmarksDeadKey = [(''+:a'', 1)]"
    by (simp_all add: test_store_def test_codec_simps zadd_rows_def keys_ne)
  with r1 have A: "\<exists>st'. deadReviveCmd test_codec [''a''] ?st = (None, st')
          \<and> zsets st' RedisBookmarksActiveKey = [(''+:a'', 1)]
          \<and> zsets st' RedisBookmarksKey = [(''+:a'', 1)]
          \<and> sets st' RedisURLSetActive = {''a''}
          \<and> sets st' RedisURLSetDead = {}
          \<and> zsets st' RedisBookmarksDeadKey = [(''+:a'', 1)]"
    by simp
  from revive_correct [OF rel read, of "''b''" "[]"] miss
  have B: "\<exists>st'. deadReviveCmd test_codec [''b''] ?st
               = (Some (Exit ''url not found in dead list'' 1), st')
          \<and> zsets st' = zsets ?st \<and> sets st' = sets ?st"
    by blast
  from rel read hit miss A B show ?thesis by (intro conjI)
qed

lemma cmd_faults:
  "faults (advance st) = drop 1 (faults st)"
  "faults (snd (Del key st)) = drop 1 (faults st)"
  "faults (snd (ZAdd key score member st)) = drop 1 (faults st)"
  "faults (snd (SAdd key member st)) = drop 1 (faults st)"
  "faults (snd (SRem key member st)) = drop 1 (faults st)"
  by (simp_all add: Del_def ZAdd_def SAdd_def SRem_def advance_def drop_Suc)

lemma write_loop_faults:
  "faults (write_loop env zkey skey bs st) = drop (2 * length bs) (faults st)"
proof (induction bs arbitrary: st)
  case Nil
  show ?case by simp
next
  case (Cons bm rest)
  show ?case
    by (simp add: Let_def Cons.IH cmd_faults)
qed

text \<open>
  C3, as stated, fails. On a store whose first command succeeds and whose second
  command fails, the first delete of the rewrite fails; \<^verbatim>\<open>saveBookmarksClassified\<close>
  still returns no error, and the later steps have run: the active membership set and
  the combined index hold the new contents.
\<close>

theorem save_errors_counterexample:
  "fst (Del RedisBookmarksActiveKey
         (snd (getAllBookmarks test_codec (test_store [(''+++:b'', 3)] [] {} [False, True]))))
     = Some RedisError
   \<and> fst (saveBookmarksClassified test_codec [mk ''b'' 3]
           (test_store [(''+++:b'', 3)] [] {} [False, True])) = None
   \<and> sets (snd (saveBookmarksClassified test_codec [mk ''b'' 3]
                 (test_store [(''+++:b'', 3)] [] {} [False, True]))) RedisURLSetActive = {''b''}
   \<and> zsets (snd (saveBookmarksClassified test_codec [mk ''b'' 3]
                 (test_store [(''+++:b'', 3)] [] {} [False, True]))) RedisBookmarksKey
       = [(''+++:b'', 3)]"
  by (simp add: saveBookmarksClassified_def Let_def lit_eval)

text \<open>
  C3, as the code has it. \<^verbatim>\<open>saveBookmarksClassified\<close> returns an error only when its
  first command, the read of the combined index, fails; then no rewrite step has run
  and the data is unchanged. When the read succeeds, the function returns no error and
  issues all of its \<open>7 + 4 * |active| + 2 * |dead|\<close> commands, whichever of the delete and
  add steps fail.
\<close>

theorem save_errors:
  fixes env :: "('s::linorder) codec"
  shows "(fails st \<longrightarrow>
            saveBookmarksClassified env active st = (Some RedisError, advance st))
       \<and> (\<not> fails st \<longrightarrow>
            fst (saveBookmarksClassified env active st) = None
            \<and> (\<forall>all. fst (getAllBookmarks env st) = Inr all \<longrightarrow>
                 faults (snd (saveBookmarksClassified env active st))
                   = drop (7 + 4 * length active
                           + 2 * length (filter (\<lambda>bm. URL bm \<notin> set (map URL active)) all))
                       (faults st)))"
proof (intro conjI impI allI)
  assume "fails st"
  then show "saveBookmarksClassified env active st = (Some RedisError, advance st)"
    by (simp add: saveBookmarksClassified_def getAllBookmarks_def ZRangeWithScores_def)
next
  assume "\<not> fails st"
  then show "fst (saveBookmarksClassified env active st) = None"
    by (simp add: saveBookmarksClassified_def getAllBookmarks_def ZRangeWithScores_def Let_def)
next
  fix all
  assume nf: "\<not> fails st" and "fst (getAllBookmarks env st) = Inr all"
  then have ga: "getAllBookmarks env st = (Inr all, advance st)"
    by (simp add: getAllBookmarks_def ZRangeWithScores_def)
  have d: "dead_loop (activeURL_loop (\<lambda>_. False) active) all []
             = filter (\<lambda>bm. URL bm \<notin> set (map URL active)) all"
    by (simp add: dead_loop_filter activeURL_loop_iff del: set_map)
  show "faults (snd (saveBookmarksClassified env active st))
          = drop (7 + 4 * length active
                  + 2 * length (filter (\<lambda>bm. URL bm \<notin> set (map URL active)) all)) (faults st)"
    unfolding saveBookmarksClassified_def ga
    by (simp add: Let_def d write_loop_faults cmd_faults del: set_map,
        rule arg_cong [of _ _ "\<lambda>n. drop n (faults st)"], arith)
qed

theorem save_errors_witness:
  "fails (test_store [(''+++:b'', 3)] [] {} [True])
   \<and> saveBookmarksClassified test_codec [mk ''b'' 3] (test_store [(''+++:b'', 3)] [] {} [True])
       = (Some RedisError, advance (test_store [(''+++:b'', 3)] [] {} [True]))
   \<and> \<not> fails (test_store [(''+++:b'', 3)] [] {} [False, True, True])
   \<and> fst (saveBookmarksClassified test_codec [mk ''b'' 3]
            (test_store [(''+++:b'', 3)] [] {} [False, True, True])) = None
   \<and> faults (snd (saveBookmarksClassified test_codec [mk ''b'' 3]
                    (test_store [(''+++:b'', 3)] [] {} [False, True, True]))) = []"
proof -
  have f1: "fails (test_store [(''+++:b'', 3)] [] {} [True])"
    and f2: "\<not> fails (test_store [(''+++:b'', 3)] [] {} [False, True, True])"
    by (simp_all add: fails_def test_store_def)
  have read: "fst (getAllBookmarks test_codec
                     (test_store [(''+++:b'', 3)] [] {} [False, True, True])) = Inr [mk ''b'' 3]"
    by (simp add: lit_eval)
  from save_errors [of "test_store [(''+++:b'', 3)] [] {} [True]" test_codec "[mk ''b'' 3]"]
    save_errors [of "test_store [(''+++:b'', 3)] [] {} [False, True, True]" test_codec
                    "[mk ''b'' 3]"]
    f1 f2 read
  show ?thesis by (simp add: test_store_def)
qed











lemma clean_run:
  fixes env :: "('s::linorder) codec"
  assumes rel: "reliable st"
    and read: "fst (getAllBookmarks env st) = Inr bookmarks"
    and ne: "bookmarks \<noteq> []"
    and run: "cleanBookmarks env client k sched st = Some (err, rep, st')"
  defines "active \<equiv> filter (\<lambda>bm. urlHealthy client (URL bm)) (removeDuplicates bookmarks)"
  defines "dead \<equiv> filter (\<lambda>bm. URL bm \<notin> set (map URL active)) bookmarks"
  shows "err = None \<and> reliable st'
     \<and> rep = Some \<lparr>removed_duplicates = int (length bookmarks) - int (length (removeDuplicates bookmarks)),
                    removed_dead = int (length (removeDuplicates bookmarks)) - int (length active),
                    remaining = length active\<rparr>
     \<and> zsets st' RedisBookmarksActiveKey = zrows env active []
     \<and> zsets st' RedisBookmarksDeadKey = zrows env dead []
     \<and> zsets st' RedisBookmarksKey = zrows env active []
     \<and> sets st' RedisURLSetActive = set (map URL active)
     \<and> sets st' RedisURLSetDead = set (map URL dead)
     \<and> sets st' RedisURLSetKey = set (map URL active)"
proof -
  from read have ga: "getAllBookmarks env st = (Inr bookmarks, advance st)"
    by (simp add: getAllBookmarks_reliable [OF rel])
  from run ga ne obtain activeBookmarks
    where rd: "removeDeadLinks client (removeDuplicates bookmarks) k sched = Some activeBookmarks"
      and rest: "(case saveBookmarksClassified env activeBookmarks (advance st) of
                    (Some err', st'') \<Rightarrow> Some (Some err', None, st'')
                  | (None, st'') \<Rightarrow>
                      Some (None,
                        Some \<lparr>removed_duplicates =
                                int (length bookmarks) - int (length (removeDuplicates bookmarks)),
                              removed_dead =
                                int (length (removeDuplicates bookmarks)) - int (length activeBookmarks),
                              remaining = length activeBookmarks\<rparr>,
                        st'')) = Some (err, rep, st')"
    by (auto simp: cleanBookmarks_def Let_def split: option.splits)
  from removeDeadLinks_result [OF rd] have a: "activeBookmarks = active"
    by (simp add: active_def)
  have rel0: "reliable (advance st)" by (rule reliable_advance [OF rel])
  have read0: "fst (getAllBookmarks env (advance st)) = Inr bookmarks"
    using read by (simp add: getAllBookmarks_reliable [OF rel] getAllBookmarks_reliable [OF rel0])
  from save_reliable [OF rel0 read0, of active] obtain st2
    where "saveBookmarksClassified env active (advance st) = (None, st2)" and "reliable st2"
      and "zsets st2 RedisBookmarksActiveKey = zrows env active []"
      and "zsets st2 RedisBookmarksDeadKey = zrows env dead []"
      and "zsets st2 RedisBookmarksKey = zrows env active []"
      and "sets st2 RedisURLSetActive = set (map URL active)"
      and "sets st2 RedisURLSetDead = set (map URL dead)"
      and "sets st2 RedisURLSetKey = set (map URL active)"
    unfolding dead_def by blast
  with rest a show ?thesis by simp
qed

lemma clean_returns:
  fixes env :: "('s::linorder) codec"
  assumes rel: "reliable st"
    and read: "fst (getAllBookmarks env st) = Inr bookmarks"
    and ne: "bookmarks \<noteq> []"
    and rd: "removeDeadLinks client (removeDuplicates bookmarks) k sched = Some active"
  shows "\<exists>rep st'. cleanBookmarks env client k sched st = Some (None, rep, st')"
proof -
  from read have ga: "getAllBookmarks env st = (Inr bookmarks, advance st)"
    by (simp add: getAllBookmarks_reliable [OF rel])
  have rel0: "reliable (advance st)" by (rule reliable_advance [OF rel])
  have read0: "fst (getAllBookmarks env (advance st)) = Inr bookmarks"
    using read by (simp add: getAllBookmarks_reliable [OF rel] getAllBookmarks_reliable [OF rel0])
  from save_reliable [OF rel0 read0, of active] obtain st2
    where "saveBookmarksClassified env active (advance st) = (None, st2)" by blast
  with ga ne rd show ?thesis
    by (simp add: cleanBookmarks_def Let_def)
qed




text \<open>
  C1, as stated, fails. In the scenario of the three records, read back with the test
  codec, the scan of the dead index after \<^verbatim>\<open>clean\<close> returns both records with the URL
  \<^verbatim>\<open>a\<close>, not only the first.
\<close>

theorem clean_scenario_counterexample:
  "fst (getAllBookmarks test_codec
          (test_store [(''+:a'', 1), (''++:a'', 2), (''+++:b'', 3)] [] {} []))
     = Inr [mk ''a'' 1, mk ''a'' 2, mk ''b'' 3]
   \<and> fst (getFromZSet test_codec RedisBookmarksDeadKey
            (snd (snd (the (cleanBookmarks test_codec (test_client [''b'']) 2
               [Add, Send, Add, Send, Step 1, Step 0, Step 0, Step 1, Step 1, Step 0]
               (test_store [(''+:a'', 1), (''++:a'', 2), (''+++:b'', 3)] [] {} []))))))
     = Inr [mk ''a'' 1, mk ''a'' 2]"
proof -
  let ?st = "test_store [(''+:a'', 1), (''++:a'', 2), (''+++:b'', 3)] [] {} []"
  let ?sched = "[Add, Send, Add, Send, Step 1, Step 0, Step 0, Step 1, Step 1, Step 0]"
  let ?run = "cleanBookmarks test_codec (test_client [''b'']) 2 ?sched ?st"
  have rel: "reliable ?st" by (rule test_store_reliable)
  have read: "fst (getAllBookmarks test_codec ?st) = Inr [mk ''a'' 1, mk ''a'' 2, mk ''b'' 3]"
    by (simp add: lit_eval)
  have u: "removeDuplicates [mk ''a'' 1, mk ''a'' 2, mk ''b'' 3] = [mk ''a'' 1, mk ''b'' 3]"
    by (simp add: removeDuplicates_def test_codec_simps)
  have rd: "removeDeadLinks (test_client [''b'']) [mk ''a'' 1, mk ''b'' 3] 2 ?sched
              = Some [mk ''b'' 3]"
    by code_simp
  from clean_returns [OF rel read _ rd [folded u]] obtain rep st'
    where run: "?run = Some (None, rep, st')" by auto
  have a: "filter (\<lambda>bm. urlHealthy (test_client [''b'']) (URL bm)) [mk ''a'' 1, mk ''b'' 3]
             = [mk ''b'' 3]"
    using removeDeadLinks_result [OF rd] by simp
  from clean_run [OF rel read _ run] have rel': "reliable st'"
    and zd: "zsets st' RedisBookmarksDeadKey = [(''++:a'', 2), (''+:a'', 1)]"
    unfolding u a by (simp_all add: test_codec_simps zadd_rows_def)
  have "fst (getFromZSet test_codec RedisBookmarksDeadKey st') = Inr [mk ''a'' 1, mk ''a'' 2]"
    by (simp add: getFromZSet_reliable [OF rel'] zd test_codec_simps test_unmarshal_simps)
  with read run show ?thesis by simp
qed

text \<open>
  C1, as the code has it. When the combined index holds three records with the URLs
  \<^verbatim>\<open>a\<close>, \<^verbatim>\<open>a\<close>, \<^verbatim>\<open>b\<close> and the creation times 1, 2, 3, the probe finds \<^verbatim>\<open>a\<close>
  unhealthy and \<^verbatim>\<open>b\<close> healthy, and the store answers every command, \<^verbatim>\<open>clean\<close> returns
  no error and reports one duplicate removed, one dead record removed and one record
  remaining; the active index holds exactly the record with the URL \<^verbatim>\<open>b\<close>, the active
  membership set is \<^verbatim>\<open>{b}\<close>, the dead membership set is \<^verbatim>\<open>{a}\<close>, and the dead index
  holds the rows of both records with the URL \<^verbatim>\<open>a\<close>: the dead records are taken from the
  full record list, not from the deduplicated one.
\<close>

theorem clean_scenario:
  fixes env :: "('s::linorder) codec"
  assumes "reliable st"
    and "fst (getAllBookmarks env st) = Inr [r1, r2, r3]"
    and "URL r1 = ''a''" and "CreatedAt r1 = 1"
    and "URL r2 = ''a''" and "CreatedAt r2 = 2"
    and "URL r3 = ''b''" and "CreatedAt r3 = 3"
    and "\<not> urlHealthy client ''a''" and "urlHealthy client ''b''"
    and "cleanBookmarks env client k sched st = Some (err, rep, st')"
  shows "err = None
     \<and> rep = Some \<lparr>removed_duplicates = 1, removed_dead = 1, remaining = 1\<rparr>
     \<and> zsets st' RedisBookmarksActiveKey = [(marshal env r3, float64 env 3)]
     \<and> sets st' RedisURLSetActive = {''b''}
     \<and> sets st' RedisURLSetDead = {''a''}
     \<and> zsets st' RedisBookmarksDeadKey
         = zadd_rows (marshal env r2) (float64 env 2) [(marshal env r1, float64 env 1)]
     \<and> set (map fst (zsets st' RedisBookmarksDeadKey)) = {marshal env r1, marshal env r2}"
proof -
  have ne: "[r1, r2, r3] \<noteq> []" by simp
  have u: "removeDuplicates [r1, r2, r3] = [r1, r3]"
    using assms(3,5,7) by (simp add: removeDuplicates_def)
  have a: "filter (\<lambda>bm. urlHealthy client (URL bm)) [r1, r3] = [r3]"
    using assms(3,7,9,10) by simp
  have d: "filter (\<lambda>bm. URL bm \<notin> set (map URL [r3])) [r1, r2, r3] = [r1, r2]"
    using assms(3,5,7) by simp
  have z: "zrows env [r3] [] = [(marshal env r3, float64 env 3)]"
    "zrows env [r1, r2] []
       = zadd_rows (marshal env r2) (float64 env 2) [(marshal env r1, float64 env 1)]"
    using assms(4,6,8) by (simp_all add: zadd_rows_def)
  have m: "set (map fst (zadd_rows (marshal env r2) (float64 env 2)
                  [(marshal env r1, float64 env 1)])) = {marshal env r1, marshal env r2}"
    by (auto simp: zadd_rows_def)
  from clean_run [OF assms(1,2) ne assms(11)] show ?thesis
    unfolding u a d z using assms(3,5,7) m by simp
qed

theorem clean_scenario_witness:
  "reliable (test_store [(''+:a'', 1), (''++:a'', 2), (''+++:b'', 3)] [] {} [])
   \<and> fst (getAllBookmarks test_codec
          (test_store [(''+:a'', 1), (''++:a'', 2), (''+++:b'', 3)] [] {} []))
       = Inr [mk ''a'' 1, mk ''a'' 2, mk ''b'' 3]
   \<and> \<not> urlHealthy (test_client [''b'']) ''a'' \<and> urlHealthy (test_client [''b'']) ''b''
   \<and> (\<exists>st'. cleanBookmarks test_codec (test_client [''b'']) 2
               [Add, Send, Add, Send, Step 1, Step 0, Step 0, Step 1, Step 1, Step 0]
               (test_store [(''+:a'', 1), (''++:a'', 2), (''+++:b'', 3)] [] {} [])
            = Some (None, Some \<lparr>removed_duplicates = 1, removed_dead = 1, remaining = 1\<rparr>, st')
          \<and> zsets st' RedisBookmarksActiveKey = [(''+++:b'', 3)]
          \<and> sets st' RedisURLSetActive = {''b''}
          \<and> sets st' RedisURLSetDead = {''a''}
          \<and> zsets st' RedisBookmarksDeadKey = [(''++:a'', 2), (''+:a'', 1)])"
proof -
  let ?st = "test_store [(''+:a'', 1), (''++:a'', 2), (''+++:b'', 3)] [] {} []"
  let ?sched = "[Add, Send, Add, Send, Step 1, Step 0, Step 0, Step 1, Step 1, Step 0]"
  let ?run = "cleanBookmarks test_codec (test_client [''b'']) 2 ?sched ?st"
  have rel: "reliable ?st" by (rule test_store_reliable)
  have read: "fst (getAllBookmarks test_codec ?st) = Inr [mk ''a'' 1, mk ''a'' 2, mk ''b'' 3]"
    by (simp add: lit_eval)
  have ha: "\<not> urlHealthy (test_client [''b'']) ''a''" by code_simp
  have hb: "urlHealthy (test_client [''b'']) ''b''" by code_simp
  have u: "removeDuplicates [mk ''a'' 1, mk ''a'' 2, mk ''b'' 3] = [mk ''a'' 1, mk ''b'' 3]"
    by (simp add: removeDuplicates_def test_codec_simps)
  have rd: "removeDeadLinks (test_client [''b'']) [mk ''a'' 1, mk ''b'' 3] 2 ?sched
              = Some [mk ''b'' 3]"
    by code_simp
  from clean_returns [OF rel read _ rd [folded u]] obtain rep st'
    where run: "?run = Some (None, rep, st')" by auto
  have f: "URL (mk ''a'' 1) = ''a''" "CreatedAt (mk ''a'' 1) = 1"
    "URL (mk ''a'' 2) = ''a''" "CreatedAt (mk ''a'' 2) = 2"
    "URL (mk ''b'' 3) = ''b''" "CreatedAt (mk ''b'' 3) = 3"
    by (simp_all add: test_codec_simps)
  note c = clean_scenario [OF rel read f ha hb run]
  from c have "rep = Some \<lparr>removed_duplicates = 1, removed_dead = 1, remaining = 1\<rparr>"
    and "zsets st' RedisBookmarksActiveKey = [(''+++:b'', 3)]"
    and "sets st' RedisURLSetActive = {''b''}"
    and "sets st' RedisURLSetDead = {''a''}"
    and "zsets st' RedisBookmarksDeadKey = [(''++:a'', 2), (''+:a'', 1)]"
    by (simp_all add: test_codec_simps zadd_rows_def)
  with run have "\<exists>st'. ?run
            = Some (None, Some \<lparr>removed_duplicates = 1, removed_dead = 1, remaining = 1\<rparr>, st')
          \<and> zsets st' RedisBookmarksActiveKey = [(''+++:b'', 3)]
          \<and> sets st' RedisURLSetActive = {''b''}
          \<and> sets st' RedisURLSetDead = {''a''}
          \<and> zsets st' RedisBookmarksDeadKey = [(''++:a'', 2), (''+:a'', 1)]"
    by simp
  with rel read ha hb show ?thesis by (intro conjI)
qed

end
